theory Spec2Isabelle
  imports Complex_Main "HOL-Library.AList"
begin

section \<open>Codon tables: data model\<close>

text \<open>
  The module \<^verbatim>\<open>codes/utils/functions.py\<close> works on Python strings and dicts.
  A codon is a \<^verbatim>\<open>str\<close>; a codon table is a \<^verbatim>\<open>dict\<close> from codons to residues.
  A dict keeps its keys unique and iterates in insertion order, so it is an association
  list whose keys are distinct; \<^verbatim>\<open>table[c]\<close> is \<open>map_of table c\<close> and raises
  \<^verbatim>\<open>KeyError\<close> where that is \<open>None\<close>. Most functions only compare residues, so the
  table is polymorphic in the residue type.
\<close>

type_synonym codon = string

type_synonym 'r table = "(codon \<times> 'r) list"

datatype error = KeyError | IndexError | ValueError

definition lookup :: "('k \<times> 'v) list \<Rightarrow> 'k \<Rightarrow> error + 'v" where
  "lookup d k = (case map_of d k of None \<Rightarrow> Inl KeyError | Some v \<Rightarrow> Inr v)"

text \<open>Running a loop body over a list, stopping at the first exception.\<close>

fun fold_err :: "('a \<Rightarrow> 's \<Rightarrow> error + 's) \<Rightarrow> 'a list \<Rightarrow> 's \<Rightarrow> error + 's" where
  "fold_err f [] s = Inr s"
| "fold_err f (x # xs) s = (case f x s of Inl e \<Rightarrow> Inl e | Inr s' \<Rightarrow> fold_err f xs s')"

text \<open>
  Modelled from the spec: the module \<^verbatim>\<open>codes.utils.definitions\<close> is not part of the
  sources at hand. \<^verbatim>\<open>rNTPs\<close> is the fixed RNA alphabet in the standard order U, C, A, G
  (the order \<^verbatim>\<open>order_NTPs\<close> uses for RNA), and \<^verbatim>\<open>triplet_codons\<close> are the 64 codons
  of length three over it.
\<close>

definition rNTPs :: "char list" where
  "rNTPs = ''UCAG''"

definition triplet_codons :: "codon list" where
  "triplet_codons = concat (map (\<lambda>a. concat (map (\<lambda>b. map (\<lambda>c. [a, b, c]) rNTPs) rNTPs)) rNTPs)"

section \<open>Neighbor generator\<close>

text \<open>\<^verbatim>\<open>codon[:i] + nt + codon[i + 1:]\<close>\<close>

definition substitute :: "codon \<Rightarrow> nat \<Rightarrow> char \<Rightarrow> codon" where
  "substitute codon i nt = take i codon @ nt # drop (Suc i) codon"

text \<open>
  \<^verbatim>\<open>get_codon_neighbors\<close>: for every position \<open>i\<close> with letter \<open>base\<close> and every \<open>nt\<close>
  of \<^verbatim>\<open>rNTPs\<close> other than \<open>base\<close>, in this order, the codon with \<open>nt\<close> at \<open>i\<close>.
\<close>

definition get_codon_neighbors :: "codon \<Rightarrow> codon list" where
  "get_codon_neighbors codon =
     concat (map (\<lambda>(i, base). map (substitute codon i) (filter (\<lambda>nt. nt \<noteq> base) rNTPs))
                 (enumerate 0 codon))"

text \<open>The positions at which two codons of the same length differ.\<close>

definition diff_positions :: "codon \<Rightarrow> codon \<Rightarrow> nat list" where
  "diff_positions c c' = filter (\<lambda>i. c ! i \<noteq> c' ! i) [0..<length c]"

section \<open>Properties of the neighbor generator\<close>

lemma length_substitute: "i < length codon \<Longrightarrow> length (substitute codon i nt) = length codon"
  by (simp add: substitute_def)

lemma nth_substitute:
  "i < length codon \<Longrightarrow> j < length codon \<Longrightarrow>
   substitute codon i nt ! j = (if j = i then nt else codon ! j)"
  by (auto simp: substitute_def nth_append min_def nth_Cons')

lemma substitute_eq_list_update:
  "i < length codon \<Longrightarrow> substitute codon i nt = codon[i := nt]"
  by (simp add: substitute_def upd_conv_take_nth_drop)

lemma in_get_codon_neighbors:
  "c' \<in> set (get_codon_neighbors codon) \<longleftrightarrow>
   (\<exists>i nt. i < length codon \<and> nt \<in> set rNTPs \<and> nt \<noteq> codon ! i \<and> c' = substitute codon i nt)"
proof
  assume "c' \<in> set (get_codon_neighbors codon)"
  then obtain i base nt where "(i, base) \<in> set (enumerate 0 codon)"
    "nt \<in> set rNTPs" "nt \<noteq> base" "c' = substitute codon i nt"
    by (auto simp: get_codon_neighbors_def)
  then show "\<exists>i nt. i < length codon \<and> nt \<in> set rNTPs \<and> nt \<noteq> codon ! i \<and> c' = substitute codon i nt"
    by (auto simp: in_set_enumerate_eq)
next
  assume "\<exists>i nt. i < length codon \<and> nt \<in> set rNTPs \<and> nt \<noteq> codon ! i \<and> c' = substitute codon i nt"
  then obtain i nt where h: "i < length codon" "nt \<in> set rNTPs" "nt \<noteq> codon ! i"
    "c' = substitute codon i nt" by blast
  then have "(i, codon ! i) \<in> set (enumerate 0 codon)"
    by (simp add: in_set_enumerate_eq)
  with h show "c' \<in> set (get_codon_neighbors codon)"
    unfolding get_codon_neighbors_def set_concat set_map by force
qed

lemma enumerate_nth: "enumerate 0 xs = map (\<lambda>i. (i, xs ! i)) [0..<length xs]"
proof -
  have "enumerate 0 (map (nth xs) [0..<length xs]) = map (\<lambda>i. (i, xs ! i)) [0..<length xs]"
    by (rule enumerate_map_upt)
  then show ?thesis by (simp only: map_nth)
qed

lemma get_codon_neighbors_positions:
  "get_codon_neighbors codon =
     concat (map (\<lambda>i. map (substitute codon i) (filter (\<lambda>nt. nt \<noteq> codon ! i) rNTPs))
                 [0..<length codon])"
  by (simp add: get_codon_neighbors_def enumerate_nth comp_def)

lemma count_other_rNTPs: "base \<in> set rNTPs \<Longrightarrow> length (filter (\<lambda>nt. nt \<noteq> base) rNTPs) = 3"
  by (auto simp: rNTPs_def)

lemma sum_list_const: "(\<And>x. x \<in> set xs \<Longrightarrow> f x = (k::nat)) \<Longrightarrow> sum_list (map f xs) = k * length xs"
  by (induction xs) auto

lemma length_get_codon_neighbors:
  assumes "set codon \<subseteq> set rNTPs"
  shows "length (get_codon_neighbors codon) = 3 * length codon"
proof -
  have "length (get_codon_neighbors codon)
      = sum_list (map (\<lambda>i. length (filter (\<lambda>nt. nt \<noteq> codon ! i) rNTPs)) [0..<length codon])"
    by (simp add: get_codon_neighbors_positions length_concat comp_def)
  also have "\<dots> = 3 * length [0..<length codon]"
  proof (rule sum_list_const)
    fix i assume "i \<in> set [0..<length codon]"
    then have "codon ! i \<in> set rNTPs" using assms by (auto simp: subset_iff)
    then show "length (filter (\<lambda>nt. nt \<noteq> codon ! i) rNTPs) = 3" by (rule count_other_rNTPs)
  qed
  finally show ?thesis by simp
qed

lemma distinct_rNTPs: "distinct rNTPs" by (simp add: rNTPs_def)

lemma substitute_inj:
  assumes "i < length codon" "j < length codon" "a \<noteq> codon ! i" "b \<noteq> codon ! j"
    "substitute codon i a = substitute codon j b"
  shows "i = j \<and> a = b"
proof -
  have "substitute codon i a ! i = substitute codon j b ! i" by (simp add: assms(5))
  then have "a = (if i = j then b else codon ! i)"
    using assms(1,2) by (simp add: nth_substitute)
  then show ?thesis using assms(3) by (auto split: if_splits)
qed

lemma distinct_concat_map:
  assumes "distinct xs" "\<And>x. x \<in> set xs \<Longrightarrow> distinct (f x)"
    "\<And>x y. x \<in> set xs \<Longrightarrow> y \<in> set xs \<Longrightarrow> x \<noteq> y \<Longrightarrow> set (f x) \<inter> set (f y) = {}"
  shows "distinct (concat (map f xs))"
  using assms
proof (induction xs)
  case Nil
  then show ?case by simp
next
  case (Cons x xs)
  have "set (f x) \<inter> set (f y) = {}" if "y \<in> set xs" for y
    using Cons.prems(1) Cons.prems(3)[of x y] that by auto
  then have "set (f x) \<inter> \<Union> (set ` f ` set xs) = {}" by blast
  moreover have "distinct (concat (map f xs))"
    using Cons by auto
  ultimately show ?case using Cons.prems(2) by simp
qed

lemma distinct_get_codon_neighbors: "distinct (get_codon_neighbors codon)"
  unfolding get_codon_neighbors_positions
proof (rule distinct_concat_map)
  show "distinct [0..<length codon]" by simp
next
  fix i assume "i \<in> set [0..<length codon]"
  then have i: "i < length codon" by simp
  have "inj_on (substitute codon i) (set (filter (\<lambda>nt. nt \<noteq> codon ! i) rNTPs))"
    using i substitute_inj[of i codon i] by (auto simp: inj_on_def)
  then show "distinct (map (substitute codon i) (filter (\<lambda>nt. nt \<noteq> codon ! i) rNTPs))"
    by (simp add: distinct_map distinct_rNTPs)
next
  fix i j
  assume "i \<in> set [0..<length codon]" "j \<in> set [0..<length codon]" "i \<noteq> j"
  then show "set (map (substitute codon i) (filter (\<lambda>nt. nt \<noteq> codon ! i) rNTPs)) \<inter>
             set (map (substitute codon j) (filter (\<lambda>nt. nt \<noteq> codon ! j) rNTPs)) = {}"
    using substitute_inj[of i codon j] by auto
qed

lemma diff_positions_substitute:
  assumes "i < length codon" "nt \<noteq> codon ! i"
  shows "diff_positions codon (substitute codon i nt) = [i]"
proof -
  have "filter (\<lambda>j. codon ! j \<noteq> substitute codon i nt ! j) [0..<length codon]
      = filter (\<lambda>j. j = i) [0..<length codon]"
    using assms by (intro filter_cong) (auto simp: nth_substitute)
  also have "\<dots> = [i]" using assms(1)
    by (induction codon rule: rev_induct) (auto simp: less_Suc_eq)
  finally show ?thesis by (simp add: diff_positions_def)
qed

lemma rNTPs_substitute:
  assumes "set codon \<subseteq> set rNTPs" "nt \<in> set rNTPs"
  shows "set (substitute codon i nt) \<subseteq> set rNTPs"
proof -
  have "set (take i codon) \<subseteq> set codon" by (rule set_take_subset)
  moreover have "set (drop (Suc i) codon) \<subseteq> set codon" by (rule set_drop_subset)
  ultimately show ?thesis using assms by (auto simp: substitute_def)
qed

text \<open>
  C8. For every codon of length 3 over the RNA alphabet, \<^verbatim>\<open>get_codon_neighbors\<close> returns
  exactly \<open>3 \<times> (4 - 1) = 9\<close> codons, pairwise different, and every one of them is again a
  codon of length 3 over the alphabet that differs from the input at exactly one position.
\<close>

theorem get_codon_neighbors_triplet:
  assumes "length codon = 3" and "set codon \<subseteq> set rNTPs"
  shows "length (get_codon_neighbors codon) = 9 \<and> distinct (get_codon_neighbors codon) \<and>
         (\<forall>c' \<in> set (get_codon_neighbors codon).
            length c' = 3 \<and> set c' \<subseteq> set rNTPs \<and> length (diff_positions codon c') = 1)"
proof (intro conjI ballI)
  show "length (get_codon_neighbors codon) = 9"
    using assms by (simp add: length_get_codon_neighbors)
  show "distinct (get_codon_neighbors codon)"
    by (rule distinct_get_codon_neighbors)
next
  fix c' assume "c' \<in> set (get_codon_neighbors codon)"
  then obtain i nt where h: "i < length codon" "nt \<in> set rNTPs" "nt \<noteq> codon ! i"
    "c' = substitute codon i nt"
    unfolding in_get_codon_neighbors by blast
  show "length c' = 3" using h assms(1) by (simp add: length_substitute)
  show "set c' \<subseteq> set rNTPs" using h assms(2) by (simp add: rNTPs_substitute)
  show "length (diff_positions codon c') = 1" using h by (simp add: diff_positions_substitute)
qed

theorem get_codon_neighbors_triplet_witness:
  "length ''AUG'' = 3 \<and> set ''AUG'' \<subseteq> set rNTPs \<and>
   get_codon_neighbors ''AUG'' =
     [''UUG'', ''CUG'', ''GUG'', ''ACG'', ''AAG'', ''AGG'', ''AUU'', ''AUC'', ''AUA''] \<and>
   length (get_codon_neighbors ''AUG'') = 9 \<and> distinct (get_codon_neighbors ''AUG'') \<and>
   length (diff_positions ''AUG'' ''ACG'') = 1"
proof -
  have h1: "length ''AUG'' = 3" by simp
  have h2: "set ''AUG'' \<subseteq> set rNTPs" by (simp add: rNTPs_def)
  have nb: "get_codon_neighbors ''AUG'' =
     [''UUG'', ''CUG'', ''GUG'', ''ACG'', ''AAG'', ''AGG'', ''AUU'', ''AUC'', ''AUA'']"
    by (simp add: get_codon_neighbors_def rNTPs_def substitute_def)
  have "''ACG'' \<in> set (get_codon_neighbors ''AUG'')" by (simp add: nb)
  with get_codon_neighbors_triplet [OF h1 h2] h1 h2 nb show ?thesis by blast
qed

section \<open>Mutation pair catalog\<close>

text \<open>
  \<^verbatim>\<open>get_mut_pairs\<close>: the set of pairs \<open>(codon, c_new)\<close>, for every key \<open>codon\<close> of the
  table and every \<open>c_new\<close> that the same double loop as in \<^verbatim>\<open>get_codon_neighbors\<close>
  builds from it. The letters come from \<^verbatim>\<open>rNTPs\<close>, whatever the table's keys are made of.
\<close>

definition get_mut_pairs :: "'r table \<Rightarrow> (codon \<times> codon) set" where
  "get_mut_pairs table =
     set (concat (map (\<lambda>codon.
            concat (map (\<lambda>(i, base). map (\<lambda>nt. (codon, substitute codon i nt))
                                          (filter (\<lambda>nt. nt \<noteq> base) rNTPs))
                        (enumerate 0 codon)))
          (map fst table)))"

text \<open>
  \<^verbatim>\<open>mut_pair_num\<close>: the alphabet is collected from the letters of the table's keys,
  the codon length is read off the first key (\<^verbatim>\<open>codon_list[0]\<close> raises \<^verbatim>\<open>IndexError\<close> on
  an empty table), and the result is the Python integer \<open>(a ** l) * l * (a - 1)\<close>.
\<close>

definition mut_pair_num :: "'r table \<Rightarrow> error + int" where
  "mut_pair_num table =
     (let codon_list = map fst table;
          alphabet = fold (\<lambda>codon alphabet. fold insert codon alphabet) codon_list {};
          a = int (card alphabet)
      in case codon_list of
           [] \<Rightarrow> Inl IndexError
         | c0 # _ \<Rightarrow> (let l = length c0 in Inr ((a ^ l) * int l * (a - 1))))"

lemma mut_pairs_of_codon:
  "concat (map (\<lambda>(i, base). map (\<lambda>nt. (codon, substitute codon i nt)) (filter (\<lambda>nt. nt \<noteq> base) rNTPs))
               (enumerate 0 codon))
   = map (Pair codon) (get_codon_neighbors codon)"
proof -
  have "map (Pair codon) (concat (map (\<lambda>(i, base). map (substitute codon i) (filter (\<lambda>nt. nt \<noteq> base) rNTPs)) (enumerate 0 codon)))
      = concat (map (\<lambda>(i, base). map (\<lambda>nt. (codon, substitute codon i nt)) (filter (\<lambda>nt. nt \<noteq> base) rNTPs)) (enumerate 0 codon))"
    by (simp add: map_concat comp_def case_prod_unfold)
  then show ?thesis by (simp add: get_codon_neighbors_def)
qed

lemma get_mut_pairs_neighbors:
  "get_mut_pairs table = (SIGMA c : fst ` set table. set (get_codon_neighbors c))"
proof -
  have "get_mut_pairs table = set (concat (map (\<lambda>codon. map (Pair codon) (get_codon_neighbors codon)) (map fst table)))"
    unfolding get_mut_pairs_def mut_pairs_of_codon ..
  also have "\<dots> = (SIGMA c : fst ` set table. set (get_codon_neighbors c))"
    by auto
  finally show ?thesis .
qed

lemma fold_insert_letters: "fold (\<lambda>codon alphabet. fold insert codon alphabet) cs A = A \<union> set (concat cs)"
proof (induction cs arbitrary: A)
  case Nil
  then show ?case by simp
next
  case (Cons c cs)
  have "fold insert c A = A \<union> set c" by (induction c arbitrary: A) auto
  then show ?case using Cons by auto
qed

lemma card_get_mut_pairs:
  "card (get_mut_pairs table) = (\<Sum>c \<in> fst ` set table. length (get_codon_neighbors c))"
proof -
  have "card (get_mut_pairs table) = (\<Sum>c \<in> fst ` set table. card (set (get_codon_neighbors c)))"
    unfolding get_mut_pairs_neighbors by (rule card_SigmaI) auto
  also have "\<dots> = (\<Sum>c \<in> fst ` set table. length (get_codon_neighbors c))"
    by (simp add: distinct_card distinct_get_codon_neighbors)
  finally show ?thesis .
qed

lemma get_mut_pairs_iff_aux:
  "(c1, c2) \<in> get_mut_pairs table \<longleftrightarrow>
     c1 \<in> fst ` set table \<and>
     (\<exists>i nt. i < length c1 \<and> nt \<in> set rNTPs \<and> nt \<noteq> c1 ! i \<and> c2 = substitute c1 i nt)"
  by (simp add: get_mut_pairs_neighbors in_get_codon_neighbors)

lemma all_letters:
  assumes "0 < l" "finite A"
  shows "\<Union> (set ` {c. length c = l \<and> set c \<subseteq> A}) = A"
proof
  show "\<Union> (set ` {c. length c = l \<and> set c \<subseteq> A}) \<subseteq> A" by auto
  show "A \<subseteq> \<Union> (set ` {c. length c = l \<and> set c \<subseteq> A})"
  proof
    fix x assume "x \<in> A"
    then have "replicate l x \<in> {c. length c = l \<and> set c \<subseteq> A}" by auto
    moreover have "x \<in> set (replicate l x)" using assms(1) by simp
    ultimately show "x \<in> \<Union> (set ` {c. length c = l \<and> set c \<subseteq> A})" by blast
  qed
qed

lemma mut_pair_num_full_aux:
  assumes keys: "fst ` set table = {c. length c = l \<and> set c \<subseteq> set rNTPs}" and l: "0 < l"
  shows "mut_pair_num table = Inr (int (card (get_mut_pairs table))) \<and>
         mut_pair_num table = Inr (4 ^ l * int l * 3)"
proof -
  have fin: "finite {c. length c = l \<and> set c \<subseteq> set rNTPs}"
    using finite_lists_length_eq[of "set rNTPs" l] by (simp add: conj_commute)
  have "card (set rNTPs) = 4" by (simp add: rNTPs_def)
  then have cardK: "card {c. length c = l \<and> set c \<subseteq> set rNTPs} = 4 ^ l"
    using card_lists_length_eq[of "set rNTPs" l] by (simp add: conj_commute)
  have "replicate l (CHR ''U'') \<in> fst ` set table"
    unfolding keys by (auto simp: rNTPs_def)
  then obtain c0 cs where tab: "map fst table = c0 # cs"
    by (cases "map fst table") auto
  have "c0 \<in> fst ` set table" using tab by (metis list.set_intros(1) set_map)
  then have len: "length c0 = l" unfolding keys by simp
  have "set (concat (map fst table)) = \<Union> (set ` (fst ` set table))" by auto
  also have "\<dots> = set rNTPs" unfolding keys using all_letters[OF l, of "set rNTPs"] by simp
  finally have alph: "card (set (concat (map fst table))) = 4"
    using \<open>card (set rNTPs) = 4\<close> by simp
  have num: "mut_pair_num table = Inr (4 ^ l * int l * 3)"
    using alph tab len by (simp add: mut_pair_num_def fold_insert_letters Let_def)
  have "card (get_mut_pairs table) = (\<Sum>c \<in> {c. length c = l \<and> set c \<subseteq> set rNTPs}. 3 * l)"
    unfolding card_get_mut_pairs keys
    by (rule sum.cong) (auto simp: length_get_codon_neighbors)
  also have "\<dots> = 4 ^ l * (3 * l)" by (simp add: cardK)
  finally have "int (card (get_mut_pairs table)) = 4 ^ l * int l * 3" by simp
  with num show ?thesis by simp
qed

lemma set_triplet_codons: "set triplet_codons = {c. length c = 3 \<and> set c \<subseteq> set rNTPs}"
proof
  show "set triplet_codons \<subseteq> {c. length c = 3 \<and> set c \<subseteq> set rNTPs}"
    by (auto simp: triplet_codons_def)
  show "{c. length c = 3 \<and> set c \<subseteq> set rNTPs} \<subseteq> set triplet_codons"
  proof
    fix c assume "c \<in> {c. length c = 3 \<and> set c \<subseteq> set rNTPs}"
    then have len: "length c = 3" and sub: "set c \<subseteq> set rNTPs" by auto
    from len obtain x y z where c: "c = [x, y, z]"
      by (auto simp: numeral_3_eq_3 length_Suc_conv)
    with sub show "c \<in> set triplet_codons"
      by (auto simp: triplet_codons_def)
  qed
qed

text \<open>
  Two example inputs: the 64 DNA triplets (T in place of U), and the 64 RNA triplets,
  each mapped to one residue.
\<close>

definition dna_table :: "string table" where
  "dna_table = map (\<lambda>c. (c, ''K'')) (List.n_lists 3 ''TCAG'')"

definition rna_table :: "string table" where
  "rna_table = map (\<lambda>c. (c, ''K'')) triplet_codons"

lemma keys_rna_table: "map fst rna_table = triplet_codons"
  by (simp add: rna_table_def comp_def)

lemma keys_dna_table: "map fst dna_table = List.n_lists 3 ''TCAG''"
  by (simp add: dna_table_def comp_def)

lemma card_get_mut_pairs_list:
  assumes "distinct (map fst table)"
  shows "card (get_mut_pairs table) = (\<Sum>c \<leftarrow> map fst table. length (get_codon_neighbors c))"
proof -
  have "(\<Sum>c \<leftarrow> map fst table. length (get_codon_neighbors c))
      = (\<Sum>c \<in> set (map fst table). length (get_codon_neighbors c))"
    using assms by (rule sum_list_distinct_conv_sum_set)
  then show ?thesis by (simp add: card_get_mut_pairs)
qed

text \<open>
  C5. As stated (every table with one alphabet and one codon length) the claim fails:
  \<^verbatim>\<open>mut_pair_num\<close> counts with the table's own letters, \<^verbatim>\<open>get_mut_pairs\<close> substitutes
  the letters of \<^verbatim>\<open>rNTPs\<close>. On the 64 DNA triplets the closed form gives 576, the
  enumeration 624 pairs (a T can be replaced by four letters).
\<close>

theorem mut_pair_num_dna_counterexample:
  "mut_pair_num dna_table = Inr 576 \<and> card (get_mut_pairs dna_table) = 624"
proof
  show "mut_pair_num dna_table = Inr 576"
    unfolding dna_table_def by code_simp
  have "distinct (map fst dna_table)"
    unfolding keys_dna_table by (simp add: distinct_n_lists)
  then have "card (get_mut_pairs dna_table)
           = (\<Sum>c \<leftarrow> List.n_lists 3 ''TCAG''. length (get_codon_neighbors c))"
    by (simp add: card_get_mut_pairs_list keys_dna_table)
  also have "\<dots> = 624" by code_simp
  finally show "card (get_mut_pairs dna_table) = 624" .
qed

text \<open>
  C5, amended. For every table whose keys are exactly the codons of one length \<open>l > 0\<close>
  over the RNA alphabet \<^verbatim>\<open>rNTPs\<close>, \<^verbatim>\<open>mut_pair_num\<close> returns the number of elements of
  \<^verbatim>\<open>get_mut_pairs\<close>, and that number is \<open>4^l * l * 3\<close>.
\<close>

theorem mut_pair_num_full:
  assumes "fst ` set table = {c. length c = l \<and> set c \<subseteq> set rNTPs}" and "0 < l"
  shows "mut_pair_num table = Inr (int (card (get_mut_pairs table))) \<and>
         mut_pair_num table = Inr (4 ^ l * int l * 3)"
  using assms by (rule mut_pair_num_full_aux)

theorem mut_pair_num_full_witness:
  "fst ` set rna_table = {c. length c = 3 \<and> set c \<subseteq> set rNTPs} \<and> (0::nat) < 3 \<and>
   mut_pair_num rna_table = Inr (int (card (get_mut_pairs rna_table))) \<and>
   mut_pair_num rna_table = Inr 576"
proof -
  have k: "fst ` set rna_table = {c. length c = 3 \<and> set c \<subseteq> set rNTPs}"
    using set_triplet_codons keys_rna_table by (metis set_map)
  have l: "(0::nat) < 3" by simp
  have a: "mut_pair_num rna_table = Inr (int (card (get_mut_pairs rna_table)))"
    using mut_pair_num_full [OF k l] by (rule conjunct1)
  have "mut_pair_num rna_table = Inr (4 ^ 3 * int 3 * 3)"
    using mut_pair_num_full [OF k l] by (rule conjunct2)
  then have b: "mut_pair_num rna_table = Inr 576" by simp
  from k l a b show ?thesis by blast
qed

text \<open>
  C10. A pair \<open>(c1, c2)\<close> is in \<^verbatim>\<open>get_mut_pairs(table)\<close> exactly when \<open>c1\<close> is a key of
  the table and \<open>c2\<close> is \<open>c1\<close> with one position replaced by a different letter of the
  fixed alphabet \<^verbatim>\<open>rNTPs\<close>; \<open>c2\<close> need not be a key: on the DNA triplets the pair
  \<open>(TTT, UTT)\<close> is returned and \<open>UTT\<close> is no key of the table.
\<close>

theorem get_mut_pairs_iff:
  "((c1, c2) \<in> get_mut_pairs table \<longleftrightarrow>
      c1 \<in> fst ` set table \<and>
      (\<exists>i nt. i < length c1 \<and> nt \<in> set rNTPs \<and> nt \<noteq> c1 ! i \<and> c2 = substitute c1 i nt)) \<and>
   (''TTT'', ''UTT'') \<in> get_mut_pairs dna_table \<and> ''UTT'' \<notin> fst ` set dna_table"
proof (intro conjI)
  show "(c1, c2) \<in> get_mut_pairs table \<longleftrightarrow>
      c1 \<in> fst ` set table \<and>
      (\<exists>i nt. i < length c1 \<and> nt \<in> set rNTPs \<and> nt \<noteq> c1 ! i \<and> c2 = substitute c1 i nt)"
    by (rule get_mut_pairs_iff_aux)
  have keys: "fst ` set dna_table = {c. length c = 3 \<and> set c \<subseteq> set ''TCAG''}"
    using keys_dna_table set_n_lists[of 3 "''TCAG''"] by (metis set_map)
  show "''UTT'' \<notin> fst ` set dna_table"
    unfolding keys by simp
  have "''TTT'' \<in> fst ` set dna_table" unfolding keys by simp
  moreover have "''UTT'' \<in> set (get_codon_neighbors ''TTT'')"
    by (simp add: get_codon_neighbors_def rNTPs_def substitute_def)
  ultimately show "(''TTT'', ''UTT'') \<in> get_mut_pairs dna_table"
    by (simp add: get_mut_pairs_neighbors)
qed

section \<open>Promiscuity collapser\<close>

text \<open>
  A residue is a Python value: a \<^verbatim>\<open>str\<close>, or a \<^verbatim>\<open>tuple\<close> of values. The collapse builds a
  tuple at a conflict, and a table given to it may hold tuples already: the function
  does not look at the type of a residue.
\<close>

datatype residue = Str string | Tup "residue list"

type_synonym promiscuous = "(codon \<times> residue) list"

text \<open>
  The argument is a \<^verbatim>\<open>dict\<close>, or an object whose attribute \<^verbatim>\<open>codon_dict\<close> is read;
  an object without the attribute makes the function raise \<^verbatim>\<open>ValueError\<close>.
\<close>

datatype table_arg = PyDict "residue table" | PyObject "residue table option"

text \<open>
  The wobble rules \<^verbatim>\<open>basepair_WC\<close> and \<^verbatim>\<open>wobble_WC\<close> are dicts of the definitions
  module, which is not among the sources; the functions take them as parameters.
  \<^verbatim>\<open>codon[-1]\<close> raises \<^verbatim>\<open>IndexError\<close> on the empty string, each dict lookup
  \<^verbatim>\<open>KeyError\<close> on a missing key.
\<close>

type_synonym basepair_rule = "(char \<times> char) list"
type_synonym wobble_rule = "(char \<times> char list) list"

definition wobble_codons :: "basepair_rule \<Rightarrow> wobble_rule \<Rightarrow> codon \<Rightarrow> error + codon list" where
  "wobble_codons basepair_WC wobble_WC codon =
     (if codon = [] then Inl IndexError
      else case lookup basepair_WC (last codon) of
             Inl e \<Rightarrow> Inl e
           | Inr paired \<Rightarrow>
               (case lookup wobble_WC paired of
                  Inl e \<Rightarrow> Inl e
                | Inr wobble \<Rightarrow> Inr (map (\<lambda>nt3. take 2 codon @ [nt3]) wobble)))"

text \<open>Iterating a Python value: the characters of a \<^verbatim>\<open>str\<close>, each a \<^verbatim>\<open>str\<close> of length
  one, or the members of a \<^verbatim>\<open>tuple\<close>.\<close>

fun py_iter :: "residue \<Rightarrow> residue list" where
  "py_iter (Str s) = map (\<lambda>ch. Str [ch]) s"
| "py_iter (Tup members) = members"

text \<open>The body of the loop \<^verbatim>\<open>for c in codons\<close>, with \<^verbatim>\<open>acceptable = [AA, '0']\<close>.\<close>

definition assign_codon :: "bool \<Rightarrow> residue \<Rightarrow> codon \<Rightarrow> promiscuous \<Rightarrow> error + promiscuous" where
  "assign_codon allow_ambiguous AA c promiscuous =
     (case lookup promiscuous c of
        Inl e \<Rightarrow> Inl e
      | Inr r \<Rightarrow>
          if r \<noteq> AA \<and> r \<noteq> Str ''0'' then
            (if \<not> allow_ambiguous then Inl ValueError
             else Inr (AList.update c (Tup (filter (\<lambda>aa. aa \<noteq> Str ''0'') (py_iter r) @ [AA]))
                                    promiscuous))
          else Inr (AList.update c AA promiscuous))"

text \<open>The body of the loop \<^verbatim>\<open>for codon, AA in table.items()\<close>.\<close>

fun reassign ::
  "basepair_rule \<Rightarrow> wobble_rule \<Rightarrow> bool \<Rightarrow> codon \<times> residue \<Rightarrow> promiscuous \<Rightarrow> error + promiscuous" where
  "reassign basepair_WC wobble_WC allow_ambiguous (codon, AA) promiscuous =
     (if AA = Str ''0'' then Inr promiscuous
      else (case wobble_codons basepair_WC wobble_WC codon of
              Inl e \<Rightarrow> Inl e
            | Inr codons \<Rightarrow> fold_err (assign_codon allow_ambiguous AA) codons promiscuous))"

definition null_table :: promiscuous where
  "null_table = fold (\<lambda>codon promiscuous. AList.update codon (Str ''0'') promiscuous) triplet_codons []"

definition promiscuity ::
  "basepair_rule \<Rightarrow> wobble_rule \<Rightarrow> table_arg \<Rightarrow> bool \<Rightarrow> error + promiscuous" where
  "promiscuity basepair_WC wobble_WC arg allow_ambiguous =
     (case (case arg of PyDict d \<Rightarrow> Inr d
                      | PyObject None \<Rightarrow> Inl ValueError
                      | PyObject (Some d) \<Rightarrow> Inr d) of
        Inl e \<Rightarrow> Inl e
      | Inr table \<Rightarrow> fold_err (reassign basepair_WC wobble_WC allow_ambiguous) table null_table)"

text \<open>\<^verbatim>\<open>is_ambiguous\<close>: the bare \<^verbatim>\<open>except\<close> turns every exception into \<^verbatim>\<open>True\<close>.\<close>

definition is_ambiguous :: "basepair_rule \<Rightarrow> wobble_rule \<Rightarrow> table_arg \<Rightarrow> bool" where
  "is_ambiguous basepair_WC wobble_WC arg =
     (case promiscuity basepair_WC wobble_WC arg False of Inl _ \<Rightarrow> True | Inr _ \<Rightarrow> False)"

text \<open>
  Example rule tables for concrete runs: Watson-Crick pairing, and Crick's wobble rules
  for the anticodon bases G, U, C, A.
\<close>

definition crick_basepair :: basepair_rule where
  "crick_basepair = [(CHR ''U'', CHR ''A''), (CHR ''C'', CHR ''G''), (CHR ''A'', CHR ''U''), (CHR ''G'', CHR ''C'')]"

definition crick_wobble :: wobble_rule where
  "crick_wobble = [(CHR ''G'', ''CU''), (CHR ''U'', ''AG''), (CHR ''C'', ''G''), (CHR ''A'', ''U'')]"

definition is_tuple :: "residue \<Rightarrow> bool" where
  "is_tuple r = (case r of Str _ \<Rightarrow> False | Tup _ \<Rightarrow> True)"

text \<open>The residues of the table that \<^verbatim>\<open>promiscuity\<close> reads from its argument.\<close>

definition residues :: "table_arg \<Rightarrow> residue set" where
  "residues arg = (case arg of PyDict d \<Rightarrow> snd ` set d
                             | PyObject None \<Rightarrow> {}
                             | PyObject (Some d) \<Rightarrow> snd ` set d)"

definition plain :: "promiscuous \<Rightarrow> bool" where
  "plain p = (\<not> (\<exists>r \<in> snd ` set p. is_tuple r))"

subsection \<open>Properties of the collapser\<close>

lemma fold_err_append:
  "fold_err f (xs @ ys) s = (case fold_err f xs s of Inl e \<Rightarrow> Inl e | Inr s' \<Rightarrow> fold_err f ys s')"
  by (induction xs arbitrary: s) (auto split: sum.splits)

lemma fold_err_transfer:
  assumes "\<And>x s s'. f x s = Inr s' \<Longrightarrow> g x s = Inr s'" and "fold_err f xs s = Inr s'"
  shows "fold_err g xs s = Inr s'"
  using assms(2)
proof (induction xs arbitrary: s)
  case Nil
  then show ?case by simp
next
  case (Cons x xs)
  then obtain s1 where s1: "f x s = Inr s1" "fold_err f xs s1 = Inr s'"
    by (auto split: sum.splits)
  then show ?case using assms(1)[OF s1(1)] Cons.IH by simp
qed

lemma fold_err_invariant:
  assumes step: "\<And>x s s'. P s \<Longrightarrow> f x s = Inr s' \<Longrightarrow> P s'"
  shows "P s \<Longrightarrow> fold_err f xs s = Inr s' \<Longrightarrow> P s'"
proof (induction xs arbitrary: s)
  case Nil
  then show ?case by simp
next
  case (Cons x xs)
  from Cons.prems(2) obtain s1 where s1: "f x s = Inr s1" "fold_err f xs s1 = Inr s'"
    by (auto split: sum.splits)
  have "P s1" using step Cons.prems(1) s1(1) by blast
  then show ?case using Cons.IH s1(2) by blast
qed

lemma lookup_Inr: "lookup d k = Inr v \<longleftrightarrow> map_of d k = Some v"
  by (simp add: lookup_def split: option.splits)

lemma lookup_Inl: "lookup d k = Inl e \<longleftrightarrow> map_of d k = None \<and> e = KeyError"
  by (auto simp: lookup_def split: option.splits)

lemma values_update: "snd ` set (AList.update k v al) \<subseteq> insert v (snd ` set al)"
  by (induction al) auto

lemma values_null_table_aux:
  "snd ` set (fold (\<lambda>codon promiscuous. AList.update codon v promiscuous) cs p) \<subseteq> insert v (snd ` set p)"
proof (induction cs arbitrary: p)
  case Nil
  then show ?case by auto
next
  case (Cons c cs)
  have "snd ` set (fold (\<lambda>codon promiscuous. AList.update codon v promiscuous) cs (AList.update c v p))
        \<subseteq> insert v (snd ` set (AList.update c v p))" by (rule Cons.IH)
  also have "\<dots> \<subseteq> insert v (snd ` set p)" using values_update[of c v p] by auto
  finally show ?case by simp
qed

lemma values_null_table: "snd ` set null_table \<subseteq> {Str ''0''}"
  using values_null_table_aux[of "Str ''0''" triplet_codons "[]"] by (simp add: null_table_def)

lemma map_of_fold_update:
  "map_of (fold (\<lambda>codon promiscuous. AList.update codon v promiscuous) cs p) c
     = (if c \<in> set cs then Some v else map_of p c)"
  by (induction cs arbitrary: p) (auto simp: update_conv')

lemma map_of_null_table:
  "map_of null_table c = (if c \<in> set triplet_codons then Some (Str ''0'') else None)"
  by (simp add: null_table_def map_of_fold_update)

lemma assign_codon_False_Inr:
  "assign_codon False AA c p = Inr p' \<longleftrightarrow>
     (map_of p c = Some AA \<or> map_of p c = Some (Str ''0'')) \<and> p' = AList.update c AA p"
  by (auto simp: assign_codon_def lookup_Inr lookup_Inl split: sum.splits)

lemma assign_codon_no_conflict:
  "assign_codon False AA c p = Inr p' \<Longrightarrow> assign_codon True AA c p = Inr p'"
  by (auto simp: assign_codon_def split: sum.splits if_splits)

lemma reassign_no_conflict:
  "reassign B W False entry p = Inr p' \<Longrightarrow> reassign B W True entry p = Inr p'"
proof (cases entry)
  case (Pair codon AA)
  assume "reassign B W False entry p = Inr p'"
  then show ?thesis unfolding Pair
    by (auto split: if_splits sum.splits
             intro: fold_err_transfer[where f = "assign_codon False AA" and g = "assign_codon True AA"]
                    assign_codon_no_conflict)
qed

lemma promiscuity_Inr:
  "promiscuity B W arg allow = Inr p \<longleftrightarrow>
     (\<exists>table. (arg = PyDict table \<or> arg = PyObject (Some table)) \<and>
              fold_err (reassign B W allow) table null_table = Inr p)"
  by (auto simp: promiscuity_def split: table_arg.splits option.splits)

lemma promiscuity_PyDict:
  "promiscuity B W (PyDict table) allow = fold_err (reassign B W allow) table null_table"
  by (simp add: promiscuity_def)

lemma is_ambiguous_iff:
  "is_ambiguous B W arg \<longleftrightarrow> (\<exists>e. promiscuity B W arg False = Inl e)"
  by (cases "promiscuity B W arg False") (simp_all add: is_ambiguous_def)

text \<open>Without a conflict every stored value is the null symbol or a residue of the table.\<close>

lemma values_assign_codon:
  assumes "assign_codon False AA c p = Inr p'" "snd ` set p \<subseteq> insert (Str ''0'') R" "AA \<in> R"
  shows "snd ` set p' \<subseteq> insert (Str ''0'') R"
proof -
  from assms(1) have "p' = AList.update c AA p" by (simp add: assign_codon_False_Inr)
  then show ?thesis using values_update[of c AA p] assms(2,3) by auto
qed

lemma values_reassign:
  assumes "reassign B W False entry p = Inr p'" "snd ` set p \<subseteq> insert (Str ''0'') R"
    and "snd entry \<in> R"
  shows "snd ` set p' \<subseteq> insert (Str ''0'') R"
proof (cases entry)
  case (Pair codon AA)
  show ?thesis
  proof (cases "AA = Str ''0''")
    case True
    with assms(1,2) Pair show ?thesis by simp
  next
    case False
    with assms(1) Pair obtain codons where
      f: "fold_err (assign_codon False AA) codons p = Inr p'"
      by (auto split: sum.splits)
    have AA: "AA \<in> R" using assms(3) Pair by simp
    have "snd ` set q \<subseteq> insert (Str ''0'') R \<Longrightarrow> assign_codon False AA c q = Inr q' \<Longrightarrow>
          snd ` set q' \<subseteq> insert (Str ''0'') R" for c q q'
      using values_assign_codon[of AA c q q' R] AA by blast
    from fold_err_invariant[where P = "\<lambda>q. snd ` set q \<subseteq> insert (Str ''0'') R"
        and f = "assign_codon False AA", OF this assms(2) f]
    show ?thesis .
  qed
qed

lemma values_collapse:
  assumes "fold_err (reassign B W False) table p = Inr p'"
    and "snd ` set p \<subseteq> insert (Str ''0'') R" and "snd ` set table \<subseteq> R"
  shows "snd ` set p' \<subseteq> insert (Str ''0'') R"
  using assms
proof (induction table arbitrary: p)
  case Nil
  then show ?case by simp
next
  case (Cons entry table)
  from Cons.prems(1) obtain p1 where p1: "reassign B W False entry p = Inr p1"
    "fold_err (reassign B W False) table p1 = Inr p'"
    by (auto split: sum.splits)
  have "snd entry \<in> R" using Cons.prems(3) by auto
  from values_reassign[OF p1(1) Cons.prems(2) this]
  have "snd ` set p1 \<subseteq> insert (Str ''0'') R" .
  moreover have "snd ` set table \<subseteq> R" using Cons.prems(3) by auto
  ultimately show ?case using Cons.IH p1(2) by blast
qed

lemma promiscuity_no_conflict:
  assumes "promiscuity B W arg False = Inr p"
  shows "promiscuity B W arg True = Inr p \<and> snd ` set p \<subseteq> insert (Str ''0'') (residues arg)"
proof -
  from assms obtain table where t: "arg = PyDict table \<or> arg = PyObject (Some table)"
    and f: "fold_err (reassign B W False) table null_table = Inr p"
    unfolding promiscuity_Inr by blast
  have "fold_err (reassign B W True) table null_table = Inr p"
    using reassign_no_conflict f
    by (rule fold_err_transfer[where f = "reassign B W False" and g = "reassign B W True"])
  then have "promiscuity B W arg True = Inr p" using t unfolding promiscuity_Inr by blast
  moreover have r: "residues arg = snd ` set table"
  proof -
    from t show ?thesis
    proof
      assume "arg = PyDict table"
      then show ?thesis by (simp add: residues_def)
    next
      assume "arg = PyObject (Some table)"
      then show ?thesis by (simp add: residues_def)
    qed
  qed
  have "snd ` set null_table \<subseteq> insert (Str ''0'') (residues arg)"
    using values_null_table by auto
  from values_collapse[OF f this] r
  have "snd ` set p \<subseteq> insert (Str ''0'') (residues arg)" by simp
  ultimately show ?thesis by simp
qed

lemma fold_assign_conflict:
  assumes "c \<in> set cs" "map_of p c = Some r" "r \<noteq> AA" "r \<noteq> Str ''0''"
  shows "\<exists>e. fold_err (assign_codon False AA) cs p = Inl e"
  using assms
proof (induction cs arbitrary: p)
  case Nil
  then show ?case by simp
next
  case (Cons c' cs)
  show ?case
  proof (cases "assign_codon False AA c' p")
    case (Inl e)
    then show ?thesis by simp
  next
    case (Inr p')
    then have ok: "map_of p c' = Some AA \<or> map_of p c' = Some (Str ''0'')"
      and p': "p' = AList.update c' AA p"
      by (simp_all add: assign_codon_False_Inr)
    from ok Cons.prems have "c' \<noteq> c" by auto
    then have "c \<in> set cs" "map_of p' c = Some r"
      using Cons.prems p' by (auto simp: update_conv')
    then have "\<exists>e. fold_err (assign_codon False AA) cs p' = Inl e"
      using Cons.IH Cons.prems by blast
    then show ?thesis using Inr by simp
  qed
qed

lemma fold_assign_error:
  assumes "set cs \<subseteq> fst ` set p" "fold_err (assign_codon False AA) cs p = Inl e"
  shows "e = ValueError"
  using assms
proof (induction cs arbitrary: p)
  case Nil
  then show ?case by simp
next
  case (Cons c' cs)
  from Cons.prems(1) have "map_of p c' \<noteq> None"
    by (simp add: map_of_eq_None_iff)
  then obtain r where r: "lookup p c' = Inr r" by (auto simp: lookup_def)
  show ?case
  proof (cases "assign_codon False AA c' p")
    case (Inl e')
    then have "e' = ValueError" using r by (auto simp: assign_codon_def split: if_splits)
    then show ?thesis using Inl Cons.prems(2) by simp
  next
    case (Inr p')
    then have p': "p' = AList.update c' AA p" by (simp add: assign_codon_False_Inr)
    have "set cs \<subseteq> fst ` set p'" using Cons.prems(1) unfolding p' by (auto simp: dom_update)
    then show ?thesis using Cons.IH[of p'] Cons.prems(2) Inr by simp
  qed
qed

text \<open>With ambiguity disallowed, a slot that holds a residue other than the null symbol
  keeps it for the rest of the collapse.\<close>

lemma assign_codon_keeps:
  assumes "assign_codon False AA c p = Inr p'" "map_of p c' = Some v" "v \<noteq> Str ''0''"
  shows "map_of p' c' = Some v"
proof -
  from assms(1) have ok: "map_of p c = Some AA \<or> map_of p c = Some (Str ''0'')"
    and p': "p' = AList.update c AA p" by (simp_all add: assign_codon_False_Inr)
  show ?thesis
  proof (cases "c' = c")
    case True
    with ok assms(2,3) have "v = AA" by auto
    with True p' show ?thesis by (simp add: update_conv')
  next
    case False
    with p' assms(2) show ?thesis by (simp add: update_conv')
  qed
qed

lemma reassign_keeps:
  assumes "reassign B W False entry p = Inr p'" "map_of p c' = Some v" "v \<noteq> Str ''0''"
  shows "map_of p' c' = Some v"
proof (cases entry)
  case (Pair codon AA)
  show ?thesis
  proof (cases "AA = Str ''0''")
    case True
    with assms(1,2) Pair show ?thesis by simp
  next
    case False
    with assms(1) Pair obtain codons where
      f: "fold_err (assign_codon False AA) codons p = Inr p'"
      by (auto split: sum.splits)
    have "map_of q c' = Some v \<Longrightarrow> assign_codon False AA c q = Inr q' \<Longrightarrow> map_of q' c' = Some v"
      for c q q'
      using assign_codon_keeps[of AA c q q' c' v] assms(3) by blast
    from fold_err_invariant[where P = "\<lambda>q. map_of q c' = Some v"
        and f = "assign_codon False AA", OF this assms(2) f]
    show ?thesis .
  qed
qed

lemma collapse_keeps:
  assumes "fold_err (reassign B W False) table p = Inr p'" "map_of p c' = Some v" "v \<noteq> Str ''0''"
  shows "map_of p' c' = Some v"
proof -
  have "map_of q c' = Some v \<Longrightarrow> reassign B W False entry q = Inr q' \<Longrightarrow> map_of q' c' = Some v"
    for entry q q'
    using reassign_keeps[of B W entry q q' c' v] assms(3) by blast
  from fold_err_invariant[where P = "\<lambda>q. map_of q c' = Some v"
      and f = "reassign B W False", OF this assms(2,1)]
  show ?thesis .
qed

lemma fold_assign_stands:
  assumes "fold_err (assign_codon False AA) cs p = Inr p'" "AA \<noteq> Str ''0''"
  shows "\<forall>c \<in> set cs. map_of p' c = Some AA"
  using assms(1)
proof (induction cs arbitrary: p)
  case Nil
  then show ?case by simp
next
  case (Cons c cs)
  from Cons.prems obtain p1 where p1: "assign_codon False AA c p = Inr p1"
    "fold_err (assign_codon False AA) cs p1 = Inr p'"
    by (auto split: sum.splits)
  from p1(1) have "map_of p1 c = Some AA"
    by (simp add: assign_codon_False_Inr update_conv')
  moreover have "map_of q c = Some AA \<Longrightarrow> assign_codon False AA d q = Inr q' \<Longrightarrow> map_of q' c = Some AA"
    for d q q'
    using assign_codon_keeps[of AA d q q' c AA] assms(2) by blast
  ultimately have "map_of p' c = Some AA"
    using fold_err_invariant[where P = "\<lambda>q. map_of q c = Some AA"
        and f = "assign_codon False AA" and xs = cs and s = p1 and s' = p'] p1(2) by blast
  with Cons.IH[OF p1(2)] show ?case by simp
qed

lemma collapse_stands:
  assumes "fold_err (reassign B W False) table p = Inr p'"
    and "(codon, AA) \<in> set table" and "AA \<noteq> Str ''0''"
  shows "\<exists>codons. wobble_codons B W codon = Inr codons \<and> (\<forall>c \<in> set codons. map_of p' c = Some AA)"
  using assms(1,2)
proof (induction table arbitrary: p)
  case Nil
  then show ?case by simp
next
  case (Cons entry table)
  from Cons.prems(1) obtain p1 where p1: "reassign B W False entry p = Inr p1"
    "fold_err (reassign B W False) table p1 = Inr p'"
    by (auto split: sum.splits)
  show ?case
  proof (cases "entry = (codon, AA)")
    case True
    with p1(1) assms(3) obtain codons where w: "wobble_codons B W codon = Inr codons"
      and f: "fold_err (assign_codon False AA) codons p = Inr p1"
      by (auto split: sum.splits)
    from fold_assign_stands[OF f assms(3)]
    have "\<forall>c \<in> set codons. map_of p1 c = Some AA" .
    then have "\<forall>c \<in> set codons. map_of p' c = Some AA"
      using collapse_keeps[OF p1(2) _ assms(3)] by blast
    with w show ?thesis by blast
  next
    case False
    with Cons.prems(2) have "(codon, AA) \<in> set table" by simp
    from Cons.IH[OF p1(2) this] show ?thesis .
  qed
qed

lemma collapse_skips_null:
  "fold_err (reassign B W allow) table p
     = fold_err (reassign B W allow) (filter (\<lambda>(codon, AA). AA \<noteq> Str ''0'') table) p"
proof (induction table arbitrary: p)
  case Nil
  then show ?case by simp
next
  case (Cons entry table)
  obtain codon AA where e: "entry = (codon, AA)" by (cases entry)
  show ?case
  proof (cases "AA = Str ''0''")
    case True
    then show ?thesis using Cons.IH by (simp add: e)
  next
    case False
    then show ?thesis using Cons.IH by (simp add: e split: sum.splits)
  qed
qed


text \<open>In either mode, a slot that is not null stays so, and an assigned slot is not null.\<close>

lemma assign_codon_fills:
  assumes "assign_codon allow AA c p = Inr p'" "AA \<noteq> Str ''0''"
  shows "\<exists>v. map_of p' c = Some v \<and> v \<noteq> Str ''0''"
  using assms by (auto simp: assign_codon_def update_conv' split: sum.splits if_splits)

lemma assign_codon_stays_filled:
  assumes "assign_codon allow AA c p = Inr p'" "AA \<noteq> Str ''0''"
    and "\<exists>v. map_of p c' = Some v \<and> v \<noteq> Str ''0''"
  shows "\<exists>v. map_of p' c' = Some v \<and> v \<noteq> Str ''0''"
proof (cases "c' = c")
  case True
  with assign_codon_fills[OF assms(1,2)] show ?thesis by simp
next
  case False
  from assms(1) obtain v where "p' = AList.update c v p"
    by (auto simp: assign_codon_def split: sum.splits if_splits)
  with False assms(3) show ?thesis by (simp add: update_conv')
qed

lemma reassign_stays_filled:
  assumes "reassign B W allow entry p = Inr p'"
    and "\<exists>v. map_of p c' = Some v \<and> v \<noteq> Str ''0''"
  shows "\<exists>v. map_of p' c' = Some v \<and> v \<noteq> Str ''0''"
proof (cases entry)
  case (Pair codon AA)
  show ?thesis
  proof (cases "AA = Str ''0''")
    case True
    with assms Pair show ?thesis by simp
  next
    case False
    with assms(1) Pair obtain codons where
      f: "fold_err (assign_codon allow AA) codons p = Inr p'"
      by (auto split: sum.splits)
    have "\<exists>v. map_of q c' = Some v \<and> v \<noteq> Str ''0'' \<Longrightarrow> assign_codon allow AA c q = Inr q' \<Longrightarrow>
          \<exists>v. map_of q' c' = Some v \<and> v \<noteq> Str ''0''" for c q q'
      using assign_codon_stays_filled[of allow AA c q q' c'] False by blast
    from fold_err_invariant[where P = "\<lambda>q. \<exists>v. map_of q c' = Some v \<and> v \<noteq> Str ''0''"
        and f = "assign_codon allow AA", OF this assms(2) f]
    show ?thesis .
  qed
qed

lemma fold_assign_fills:
  assumes "fold_err (assign_codon allow AA) cs p = Inr p'" "AA \<noteq> Str ''0''"
  shows "\<forall>c \<in> set cs. \<exists>v. map_of p' c = Some v \<and> v \<noteq> Str ''0''"
  using assms(1)
proof (induction cs arbitrary: p)
  case Nil
  then show ?case by simp
next
  case (Cons c cs)
  from Cons.prems obtain p1 where p1: "assign_codon allow AA c p = Inr p1"
    "fold_err (assign_codon allow AA) cs p1 = Inr p'"
    by (auto split: sum.splits)
  have "\<exists>v. map_of q c = Some v \<and> v \<noteq> Str ''0'' \<Longrightarrow> assign_codon allow AA d q = Inr q' \<Longrightarrow>
        \<exists>v. map_of q' c = Some v \<and> v \<noteq> Str ''0''" for d q q'
    using assign_codon_stays_filled[of allow AA d q q' c] assms(2) by blast
  from fold_err_invariant[where P = "\<lambda>q. \<exists>v. map_of q c = Some v \<and> v \<noteq> Str ''0''"
      and f = "assign_codon allow AA", OF this assign_codon_fills[OF p1(1) assms(2)] p1(2)]
  have "\<exists>v. map_of p' c = Some v \<and> v \<noteq> Str ''0''" .
  with Cons.IH[OF p1(2)] show ?case by simp
qed

lemma collapse_fills:
  assumes "fold_err (reassign B W allow) table p = Inr p'"
    and "(codon, AA) \<in> set table" and "AA \<noteq> Str ''0''"
  shows "\<exists>codons. wobble_codons B W codon = Inr codons \<and>
           (\<forall>c \<in> set codons. \<exists>v. map_of p' c = Some v \<and> v \<noteq> Str ''0'')"
  using assms(1,2)
proof (induction table arbitrary: p)
  case Nil
  then show ?case by simp
next
  case (Cons entry table)
  from Cons.prems(1) obtain p1 where p1: "reassign B W allow entry p = Inr p1"
    "fold_err (reassign B W allow) table p1 = Inr p'"
    by (auto split: sum.splits)
  show ?case
  proof (cases "entry = (codon, AA)")
    case True
    with p1(1) assms(3) obtain codons where w: "wobble_codons B W codon = Inr codons"
      and f: "fold_err (assign_codon allow AA) codons p = Inr p1"
      by (auto split: sum.splits)
    have step: "\<exists>v. map_of q c = Some v \<and> v \<noteq> Str ''0'' \<Longrightarrow> reassign B W allow e q = Inr q' \<Longrightarrow>
        \<exists>v. map_of q' c = Some v \<and> v \<noteq> Str ''0''" for c e q q'
      using reassign_stays_filled[of B W allow e q q' c] by blast
    have "\<exists>v. map_of p' c = Some v \<and> v \<noteq> Str ''0''" if "c \<in> set codons" for c
    proof -
      from fold_assign_fills[OF f assms(3)] that
      have "\<exists>v. map_of p1 c = Some v \<and> v \<noteq> Str ''0''" by blast
      from fold_err_invariant[where P = "\<lambda>q. \<exists>v. map_of q c = Some v \<and> v \<noteq> Str ''0''"
          and f = "reassign B W allow", OF step this p1(2)]
      show ?thesis .
    qed
    with w show ?thesis by blast
  next
    case False
    with Cons.prems(2) have "(codon, AA) \<in> set table" by simp
    from Cons.IH[OF p1(2) this] show ?thesis .
  qed
qed

subsection \<open>Concrete runs\<close>

lemma wobble_codons_UUU: "wobble_codons crick_basepair crick_wobble ''UUU'' = Inr [''UUU'']"
  by (simp add: wobble_codons_def lookup_def crick_basepair_def crick_wobble_def)

lemma wobble_codons_UUC: "wobble_codons crick_basepair crick_wobble ''UUC'' = Inr [''UUC'', ''UUU'']"
  by (simp add: wobble_codons_def lookup_def crick_basepair_def crick_wobble_def)

lemma wobble_codons_UGA: "wobble_codons crick_basepair crick_wobble ''UGA'' = Inr [''UGA'', ''UGG'']"
  by (simp add: wobble_codons_def lookup_def crick_basepair_def crick_wobble_def)

lemma triplet_examples:
  "''UUU'' \<in> set triplet_codons" "''UUC'' \<in> set triplet_codons"
  "''UGA'' \<in> set triplet_codons" "''UGG'' \<in> set triplet_codons"
  by (simp_all add: set_triplet_codons rNTPs_def)

lemma collapse_UUU_F:
  "fold_err (reassign crick_basepair crick_wobble allow) [(''UUU'', Str ''F'')] null_table
     = Inr (AList.update ''UUU'' (Str ''F'') null_table)"
  by (simp add: wobble_codons_UUU assign_codon_def lookup_def map_of_null_table triplet_examples)

lemma collapse_UUU_tuple:
  "fold_err (reassign crick_basepair crick_wobble allow) [(''UUU'', Tup [Str ''F'', Str ''L''])] null_table
     = Inr (AList.update ''UUU'' (Tup [Str ''F'', Str ''L'']) null_table)"
  by (simp add: wobble_codons_UUU assign_codon_def lookup_def map_of_null_table triplet_examples)

lemma collapse_UUU_UUC_F:
  "fold_err (reassign crick_basepair crick_wobble allow)
     [(''UUU'', Str ''F''), (''UUC'', Str ''F'')] null_table
     = Inr (AList.update ''UUU'' (Str ''F'')
             (AList.update ''UUC'' (Str ''F'') (AList.update ''UUU'' (Str ''F'') null_table)))"
  by (simp add: wobble_codons_UUU wobble_codons_UUC assign_codon_def lookup_def map_of_null_table
      triplet_examples update_conv')

lemma collapse_UUU_F_UUC_null:
  "fold_err (reassign crick_basepair crick_wobble allow)
     [(''UUU'', Str ''F''), (''UUC'', Str ''0'')] null_table
     = Inr (AList.update ''UUU'' (Str ''F'') null_table)"
proof -
  have "fold_err (reassign crick_basepair crick_wobble allow)
          ([(''UUU'', Str ''F'')] @ [(''UUC'', Str ''0'')]) null_table
     = Inr (AList.update ''UUU'' (Str ''F'') null_table)"
    unfolding fold_err_append collapse_UUU_F by simp
  then show ?thesis by simp
qed

lemma collapse_UGA_stop:
  "fold_err (reassign crick_basepair crick_wobble allow) [(''UGA'', Str ''*'')] null_table
     = Inr (AList.update ''UGG'' (Str ''*'') (AList.update ''UGA'' (Str ''*'') null_table))"
  by (simp add: wobble_codons_UGA assign_codon_def lookup_def map_of_null_table triplet_examples
      update_conv')


text \<open>
  C3. As stated (every entry of every table) the claim fails at an entry that the collapse
  skips: in \<open>{UUU: F, UUC: 0}\<close> the wobble set of \<open>UUC\<close> is \<open>[UUC, UUU]\<close> and \<open>UUU\<close> holds
  \<open>F\<close>, a non-null residue different from the entry's \<open>0\<close>, yet the call with ambiguity
  disallowed returns a table.
\<close>

theorem promiscuity_null_entry_counterexample:
  "fold_err (reassign crick_basepair crick_wobble False) [(''UUU'', Str ''F'')] null_table
     = Inr (AList.update ''UUU'' (Str ''F'') null_table) \<and>
   wobble_codons crick_basepair crick_wobble ''UUC'' = Inr [''UUC'', ''UUU''] \<and>
   map_of (AList.update ''UUU'' (Str ''F'') null_table) ''UUU'' = Some (Str ''F'') \<and>
   Str ''F'' \<noteq> Str ''0'' \<and>
   promiscuity crick_basepair crick_wobble (PyDict [(''UUU'', Str ''F''), (''UUC'', Str ''0'')]) False
     = Inr (AList.update ''UUU'' (Str ''F'') null_table) \<and>
   \<not> is_ambiguous crick_basepair crick_wobble (PyDict [(''UUU'', Str ''F''), (''UUC'', Str ''0'')])"
proof -
  have r: "promiscuity crick_basepair crick_wobble (PyDict [(''UUU'', Str ''F''), (''UUC'', Str ''0'')]) False
     = Inr (AList.update ''UUU'' (Str ''F'') null_table)"
    by (simp only: promiscuity_PyDict collapse_UUU_F_UUC_null)
  then have "\<not> is_ambiguous crick_basepair crick_wobble (PyDict [(''UUU'', Str ''F''), (''UUC'', Str ''0'')])"
    by (simp add: is_ambiguous_def)
  moreover have "map_of (AList.update ''UUU'' (Str ''F'') null_table) ''UUU'' = Some (Str ''F'')"
    by (simp add: update_conv')
  moreover have "Str ''F'' \<noteq> Str ''0''" by simp
  ultimately show ?thesis using r collapse_UUU_F[of False] wobble_codons_UUC by blast
qed

text \<open>
  C3, amended. With \<open>allow_ambiguous = False\<close>: when the entries before \<open>(codon, AA)\<close> have
  been collapsed into \<open>p\<close>, the entry is not a skipped one (\<open>AA\<close> is not the null symbol),
  and some codon \<open>c\<close> of its wobble set holds in \<open>p\<close> a residue that is neither \<open>AA\<close> nor the
  null symbol, the call returns an error and no table, whatever entries follow; the error
  is the \<^verbatim>\<open>ValueError\<close> of the conflict when all codons of the wobble set are keys of
  \<open>p\<close>. And \<^verbatim>\<open>is_ambiguous\<close> is true exactly when that call returns an error.
\<close>

theorem promiscuity_conflict_fails:
  assumes "fold_err (reassign B W False) pre null_table = Inr p"
    and "AA \<noteq> Str ''0''" and "wobble_codons B W codon = Inr codons"
    and "c \<in> set codons" and "map_of p c = Some r" and "r \<noteq> AA" and "r \<noteq> Str ''0''"
  shows "(\<exists>e. promiscuity B W (PyDict (pre @ (codon, AA) # post)) False = Inl e) \<and>
         (set codons \<subseteq> fst ` set p \<longrightarrow>
            promiscuity B W (PyDict (pre @ (codon, AA) # post)) False = Inl ValueError) \<and>
         (is_ambiguous B W arg \<longleftrightarrow> (\<exists>e. promiscuity B W arg False = Inl e))"
proof -
  obtain e where e: "fold_err (assign_codon False AA) codons p = Inl e"
    using fold_assign_conflict[OF assms(4-7)] by blast
  then have res: "promiscuity B W (PyDict (pre @ (codon, AA) # post)) False = Inl e"
    using assms(1-3) by (simp add: promiscuity_PyDict fold_err_append)
  have "e = ValueError" if "set codons \<subseteq> fst ` set p"
    using fold_assign_error[OF that e] .
  with res show ?thesis by (auto simp: is_ambiguous_iff)
qed

theorem promiscuity_conflict_fails_witness:
  "fold_err (reassign crick_basepair crick_wobble False) [(''UUU'', Str ''F'')] null_table
     = Inr (AList.update ''UUU'' (Str ''F'') null_table) \<and>
   Str ''L'' \<noteq> Str ''0'' \<and>
   wobble_codons crick_basepair crick_wobble ''UUC'' = Inr [''UUC'', ''UUU''] \<and>
   ''UUU'' \<in> set [''UUC'', ''UUU''] \<and>
   map_of (AList.update ''UUU'' (Str ''F'') null_table) ''UUU'' = Some (Str ''F'') \<and>
   Str ''F'' \<noteq> Str ''L'' \<and> Str ''F'' \<noteq> Str ''0'' \<and>
   set [''UUC'', ''UUU''] \<subseteq> fst ` set (AList.update ''UUU'' (Str ''F'') null_table) \<and>
   promiscuity crick_basepair crick_wobble (PyDict [(''UUU'', Str ''F''), (''UUC'', Str ''L'')]) False
     = Inl ValueError \<and>
   is_ambiguous crick_basepair crick_wobble (PyDict [(''UUU'', Str ''F''), (''UUC'', Str ''L'')])"
proof -
  have h1: "fold_err (reassign crick_basepair crick_wobble False) [(''UUU'', Str ''F'')] null_table
     = Inr (AList.update ''UUU'' (Str ''F'') null_table)" by (rule collapse_UUU_F)
  have h2: "Str ''L'' \<noteq> Str ''0''" by simp
  have h4: "''UUU'' \<in> set [''UUC'', ''UUU'']" by simp
  have h5: "map_of (AList.update ''UUU'' (Str ''F'') null_table) ''UUU'' = Some (Str ''F'')"
    by (simp add: update_conv')
  have h6: "Str ''F'' \<noteq> Str ''L''" by simp
  have h7: "Str ''F'' \<noteq> Str ''0''" by simp
  have keys: "set [''UUC'', ''UUU''] \<subseteq> fst ` set (AList.update ''UUU'' (Str ''F'') null_table)"
    using triplet_examples(1,2) map_of_null_table[of "''UUC''"]
    by (auto simp: dom_update dest: map_of_SomeD intro: rev_image_eqI)
  note t = promiscuity_conflict_fails [OF h1 h2 wobble_codons_UUC h4 h5 h6 h7,
      of "[]" "PyDict [(''UUU'', Str ''F''), (''UUC'', Str ''L'')]"]
  have r: "promiscuity crick_basepair crick_wobble (PyDict [(''UUU'', Str ''F''), (''UUC'', Str ''L'')]) False
     = Inl ValueError"
    using t keys by simp
  then have "is_ambiguous crick_basepair crick_wobble (PyDict [(''UUU'', Str ''F''), (''UUC'', Str ''L'')])"
    using t by blast
  with h1 h2 wobble_codons_UUC h4 h5 h6 h7 keys r show ?thesis by blast
qed

text \<open>
  C6. As stated the claim fails on a table that holds a tuple residue: the collapse of
  \<open>{UUU: (F, L)}\<close> meets no conflict, both calls return the same table, and that table holds
  the tuple at \<open>UUU\<close>.
\<close>

theorem promiscuity_tuple_input_counterexample:
  "\<not> is_ambiguous crick_basepair crick_wobble (PyDict [(''UUU'', Tup [Str ''F'', Str ''L''])]) \<and>
   promiscuity crick_basepair crick_wobble (PyDict [(''UUU'', Tup [Str ''F'', Str ''L''])]) False
     = Inr (AList.update ''UUU'' (Tup [Str ''F'', Str ''L'']) null_table) \<and>
   promiscuity crick_basepair crick_wobble (PyDict [(''UUU'', Tup [Str ''F'', Str ''L''])]) True
     = Inr (AList.update ''UUU'' (Tup [Str ''F'', Str ''L'']) null_table) \<and>
   map_of (AList.update ''UUU'' (Tup [Str ''F'', Str ''L'']) null_table) ''UUU''
     = Some (Tup [Str ''F'', Str ''L'']) \<and>
   is_tuple (Tup [Str ''F'', Str ''L'']) \<and>
   \<not> plain (AList.update ''UUU'' (Tup [Str ''F'', Str ''L'']) null_table)"
proof -
  have f: "promiscuity crick_basepair crick_wobble (PyDict [(''UUU'', Tup [Str ''F'', Str ''L''])]) False
     = Inr (AList.update ''UUU'' (Tup [Str ''F'', Str ''L'']) null_table)"
    by (simp only: promiscuity_PyDict collapse_UUU_tuple)
  have t: "promiscuity crick_basepair crick_wobble (PyDict [(''UUU'', Tup [Str ''F'', Str ''L''])]) True
     = Inr (AList.update ''UUU'' (Tup [Str ''F'', Str ''L'']) null_table)"
    by (simp only: promiscuity_PyDict collapse_UUU_tuple)
  have na: "\<not> is_ambiguous crick_basepair crick_wobble (PyDict [(''UUU'', Tup [Str ''F'', Str ''L''])])"
    using f by (simp add: is_ambiguous_def)
  have m: "map_of (AList.update ''UUU'' (Tup [Str ''F'', Str ''L'']) null_table) ''UUU''
     = Some (Tup [Str ''F'', Str ''L''])" by (simp add: update_conv')
  have it: "is_tuple (Tup [Str ''F'', Str ''L''])" by (simp add: is_tuple_def)
  from m have "(''UUU'', Tup [Str ''F'', Str ''L'']) \<in> set (AList.update ''UUU'' (Tup [Str ''F'', Str ''L'']) null_table)"
    by (rule map_of_SomeD)
  then have "Tup [Str ''F'', Str ''L''] \<in> snd ` set (AList.update ''UUU'' (Tup [Str ''F'', Str ''L'']) null_table)"
    by force
  with it have np: "\<not> plain (AList.update ''UUU'' (Tup [Str ''F'', Str ''L'']) null_table)"
    unfolding plain_def by blast
  from na f t m it np show ?thesis by blast
qed

text \<open>
  C6, amended. For every table whose collapse meets no conflict (\<^verbatim>\<open>is_ambiguous\<close> is
  false), the collapse that disallows ambiguity and the one that allows it return the
  same table, and a tuple entry of that table is a residue of the input table: the
  collapse makes no tuple, so the result has no tuple entry when the input table has
  none.
\<close>

theorem promiscuity_unambiguous:
  assumes "\<not> is_ambiguous B W arg"
  shows "\<exists>p. promiscuity B W arg False = Inr p \<and> promiscuity B W arg True = Inr p \<and>
           (\<forall>r \<in> snd ` set p. is_tuple r \<longrightarrow> r \<in> residues arg) \<and>
           ((\<forall>r \<in> residues arg. \<not> is_tuple r) \<longrightarrow> plain p)"
proof -
  from assms obtain p where p: "promiscuity B W arg False = Inr p"
    by (cases "promiscuity B W arg False") (auto simp: is_ambiguous_def)
  from promiscuity_no_conflict[OF p]
  have t: "promiscuity B W arg True = Inr p"
    and v: "snd ` set p \<subseteq> insert (Str ''0'') (residues arg)" by simp_all
  have a: "r \<in> residues arg" if "r \<in> snd ` set p" "is_tuple r" for r
  proof -
    from that(2) have "r \<noteq> Str ''0''" by (auto simp: is_tuple_def)
    with that(1) v show ?thesis by blast
  qed
  then have b: "plain p" if "\<forall>r \<in> residues arg. \<not> is_tuple r"
    using that unfolding plain_def by blast
  from p t a b show ?thesis by blast
qed

theorem promiscuity_unambiguous_witness:
  "\<not> is_ambiguous crick_basepair crick_wobble (PyDict [(''UUU'', Str ''F''), (''UUC'', Str ''F'')]) \<and>
   wobble_codons crick_basepair crick_wobble ''UUC'' = Inr [''UUC'', ''UUU''] \<and>
   promiscuity crick_basepair crick_wobble (PyDict [(''UUU'', Str ''F''), (''UUC'', Str ''F'')]) False
     = Inr (AList.update ''UUU'' (Str ''F'')
             (AList.update ''UUC'' (Str ''F'') (AList.update ''UUU'' (Str ''F'') null_table))) \<and>
   promiscuity crick_basepair crick_wobble (PyDict [(''UUU'', Str ''F''), (''UUC'', Str ''F'')]) True
     = Inr (AList.update ''UUU'' (Str ''F'')
             (AList.update ''UUC'' (Str ''F'') (AList.update ''UUU'' (Str ''F'') null_table))) \<and>
   plain (AList.update ''UUU'' (Str ''F'')
             (AList.update ''UUC'' (Str ''F'') (AList.update ''UUU'' (Str ''F'') null_table)))"
proof -
  let ?arg = "PyDict [(''UUU'', Str ''F''), (''UUC'', Str ''F'')]"
  let ?P = "AList.update ''UUU'' (Str ''F'')
             (AList.update ''UUC'' (Str ''F'') (AList.update ''UUU'' (Str ''F'') null_table))"
  have f: "promiscuity crick_basepair crick_wobble ?arg False = Inr ?P"
    by (simp only: promiscuity_PyDict collapse_UUU_UUC_F)
  then have na: "\<not> is_ambiguous crick_basepair crick_wobble ?arg"
    by (simp add: is_ambiguous_def)
  from promiscuity_unambiguous [OF na] obtain p where
    p: "promiscuity crick_basepair crick_wobble ?arg False = Inr p"
       "promiscuity crick_basepair crick_wobble ?arg True = Inr p"
       "(\<forall>r \<in> residues ?arg. \<not> is_tuple r) \<longrightarrow> plain p" by blast
  from p(1) f have eq: "p = ?P" by simp
  have "\<forall>r \<in> residues ?arg. \<not> is_tuple r" by (simp add: residues_def is_tuple_def)
  with p(3) have "plain p" by blast
  with na wobble_codons_UUC f p(2) eq show ?thesis by simp
qed

text \<open>
  C4. As stated the claim fails both ways: the stop entry \<open>UGA \<rightarrow> *\<close> is processed (it
  writes \<open>*\<close> to \<open>UGA\<close> and \<open>UGG\<close>), and the null entry \<open>UUC \<rightarrow> 0\<close> is skipped: the table
  \<open>{UUU: F, UUC: 0}\<close> collapses to the same result as \<open>{UUU: F}\<close>, while processing the
  null entry would have met \<open>F\<close> at \<open>UUU\<close> and raised.
\<close>

theorem promiscuity_stop_processed_counterexample:
  "promiscuity crick_basepair crick_wobble (PyDict [(''UGA'', Str ''*'')]) False
     = Inr (AList.update ''UGG'' (Str ''*'') (AList.update ''UGA'' (Str ''*'') null_table)) \<and>
   map_of (AList.update ''UGG'' (Str ''*'') (AList.update ''UGA'' (Str ''*'') null_table)) ''UGG''
     = Some (Str ''*'') \<and>
   map_of null_table ''UGG'' = Some (Str ''0'') \<and>
   promiscuity crick_basepair crick_wobble (PyDict [(''UUU'', Str ''F''), (''UUC'', Str ''0'')]) False
     = Inr (AList.update ''UUU'' (Str ''F'') null_table) \<and>
   promiscuity crick_basepair crick_wobble (PyDict [(''UUU'', Str ''F'')]) False
     = Inr (AList.update ''UUU'' (Str ''F'') null_table) \<and>
   fold_err (assign_codon False (Str ''0'')) [''UUC'', ''UUU''] (AList.update ''UUU'' (Str ''F'') null_table)
     = Inl ValueError"
proof (intro conjI)
  show "promiscuity crick_basepair crick_wobble (PyDict [(''UGA'', Str ''*'')]) False
     = Inr (AList.update ''UGG'' (Str ''*'') (AList.update ''UGA'' (Str ''*'') null_table))"
    by (simp only: promiscuity_PyDict collapse_UGA_stop)
  show "map_of (AList.update ''UGG'' (Str ''*'') (AList.update ''UGA'' (Str ''*'') null_table)) ''UGG''
     = Some (Str ''*'')" by (simp add: update_conv')
  show "map_of null_table ''UGG'' = Some (Str ''0'')"
    by (simp add: map_of_null_table triplet_examples)
  show "promiscuity crick_basepair crick_wobble (PyDict [(''UUU'', Str ''F''), (''UUC'', Str ''0'')]) False
     = Inr (AList.update ''UUU'' (Str ''F'') null_table)"
    by (simp only: promiscuity_PyDict collapse_UUU_F_UUC_null)
  show "promiscuity crick_basepair crick_wobble (PyDict [(''UUU'', Str ''F'')]) False
     = Inr (AList.update ''UUU'' (Str ''F'') null_table)"
    by (simp only: promiscuity_PyDict collapse_UUU_F)
  show "fold_err (assign_codon False (Str ''0'')) [''UUC'', ''UUU''] (AList.update ''UUU'' (Str ''F'') null_table)
     = Inl ValueError"
    by (simp add: assign_codon_def lookup_def map_of_null_table triplet_examples update_conv')
qed

text \<open>
  C4, amended. During the collapse, for every input table, exactly the entries whose
  residue is the null symbol \<open>0\<close> are skipped: deleting them from the table changes
  nothing, in either mode. Every other entry, the entries mapping to the stop symbol \<open>*\<close>
  included, is processed: when the call returns, the wobble set of the entry was found and
  none of its codons is null any more, and with ambiguity disallowed each of them holds
  the residue of the entry.
\<close>

theorem promiscuity_skips_null_entries:
  "promiscuity B W (PyDict table) allow
     = promiscuity B W (PyDict (filter (\<lambda>(codon, AA). AA \<noteq> Str ''0'') table)) allow \<and>
   (promiscuity B W (PyDict table) allow = Inr p \<longrightarrow> (codon, AA) \<in> set table \<longrightarrow>
      AA \<noteq> Str ''0'' \<longrightarrow>
      (\<exists>codons. wobble_codons B W codon = Inr codons \<and>
                (\<forall>c \<in> set codons. \<exists>v. map_of p c = Some v \<and> v \<noteq> Str ''0''))) \<and>
   (promiscuity B W (PyDict table) False = Inr q \<longrightarrow> (codon, AA) \<in> set table \<longrightarrow>
      AA \<noteq> Str ''0'' \<longrightarrow>
      (\<exists>codons. wobble_codons B W codon = Inr codons \<and>
                (\<forall>c \<in> set codons. map_of q c = Some AA)))"
proof (intro conjI impI)
  show "promiscuity B W (PyDict table) allow
     = promiscuity B W (PyDict (filter (\<lambda>(codon, AA). AA \<noteq> Str ''0'') table)) allow"
    unfolding promiscuity_PyDict by (rule collapse_skips_null)
next
  assume "promiscuity B W (PyDict table) allow = Inr p" "(codon, AA) \<in> set table" "AA \<noteq> Str ''0''"
  then show "\<exists>codons. wobble_codons B W codon = Inr codons \<and>
                (\<forall>c \<in> set codons. \<exists>v. map_of p c = Some v \<and> v \<noteq> Str ''0'')"
    unfolding promiscuity_PyDict by (rule collapse_fills)
next
  assume "promiscuity B W (PyDict table) False = Inr q" "(codon, AA) \<in> set table" "AA \<noteq> Str ''0''"
  then show "\<exists>codons. wobble_codons B W codon = Inr codons \<and>
                (\<forall>c \<in> set codons. map_of q c = Some AA)"
    unfolding promiscuity_PyDict by (rule collapse_stands)
qed

theorem promiscuity_skips_null_entries_witness:
  "promiscuity crick_basepair crick_wobble
     (PyDict [(''UUC'', Str ''0''), (''UGA'', Str ''*''), (''UUU'', Str ''0'')]) False
     = promiscuity crick_basepair crick_wobble (PyDict [(''UGA'', Str ''*'')]) False \<and>
   promiscuity crick_basepair crick_wobble (PyDict [(''UGA'', Str ''*'')]) False
     = Inr (AList.update ''UGG'' (Str ''*'') (AList.update ''UGA'' (Str ''*'') null_table)) \<and>
   (''UGA'', Str ''*'') \<in> set [(''UGA'', Str ''*'')] \<and> Str ''*'' \<noteq> Str ''0'' \<and>
   wobble_codons crick_basepair crick_wobble ''UGA'' = Inr [''UGA'', ''UGG''] \<and>
   map_of (AList.update ''UGG'' (Str ''*'') (AList.update ''UGA'' (Str ''*'') null_table)) ''UGA''
     = Some (Str ''*'') \<and>
   map_of (AList.update ''UGG'' (Str ''*'') (AList.update ''UGA'' (Str ''*'') null_table)) ''UGG''
     = Some (Str ''*'')"
proof -
  let ?Q = "AList.update ''UGG'' (Str ''*'') (AList.update ''UGA'' (Str ''*'') null_table)"
  have r: "promiscuity crick_basepair crick_wobble (PyDict [(''UGA'', Str ''*'')]) False = Inr ?Q"
    by (simp only: promiscuity_PyDict collapse_UGA_stop)
  have i: "(''UGA'', Str ''*'') \<in> set [(''UGA'', Str ''*'')]" by simp
  have n: "Str ''*'' \<noteq> Str ''0''" by simp
  note t1 = promiscuity_skips_null_entries [of crick_basepair crick_wobble
      "[(''UUC'', Str ''0''), (''UGA'', Str ''*''), (''UUU'', Str ''0'')]" False]
  note t2 = promiscuity_skips_null_entries [of crick_basepair crick_wobble
      "[(''UGA'', Str ''*'')]" False ?Q "''UGA''" "Str ''*''" ?Q]
  from t1 have s: "promiscuity crick_basepair crick_wobble
     (PyDict [(''UUC'', Str ''0''), (''UGA'', Str ''*''), (''UUU'', Str ''0'')]) False
     = promiscuity crick_basepair crick_wobble (PyDict [(''UGA'', Str ''*'')]) False"
    by simp
  from t2 r i n obtain codons where
    c: "wobble_codons crick_basepair crick_wobble ''UGA'' = Inr codons"
       "\<forall>c \<in> set codons. map_of ?Q c = Some (Str ''*'')" by blast
  from c(1) wobble_codons_UGA have "codons = [''UGA'', ''UGG'']" by simp
  with c(2) have "map_of ?Q ''UGA'' = Some (Str ''*'')" "map_of ?Q ''UGG'' = Some (Str ''*'')"
    by simp_all
  with s r i n wobble_codons_UGA show ?thesis by blast
qed

section \<open>Mutability\<close>

text \<open>
  \<^verbatim>\<open>mutability\<close> loops over the set \<^verbatim>\<open>get_mut_pairs(table)\<close>. Python does not fix the
  order in which a set is iterated, so the model takes the enumeration \<open>mut_pairs\<close> of the
  set as an argument, and the properties are proved for every enumeration. The
  Kyte-Doolittle table \<^verbatim>\<open>kd_hydropathy\<close> belongs to the definitions module and is a
  parameter; its values and the arithmetic on them are taken in the reals.
\<close>

fun mutability_step ::
  "('r \<times> real) list \<Rightarrow> 'r table \<Rightarrow> codon \<times> codon \<Rightarrow> nat \<times> real \<Rightarrow> error + nat \<times> real" where
  "mutability_step kd table (c1, c2) (nonsyn_mut, metric) =
     (case lookup table c1 of
        Inl e \<Rightarrow> Inl e
      | Inr aa1 \<Rightarrow>
         (case lookup table c2 of
            Inl e \<Rightarrow> Inl e
          | Inr aa2 \<Rightarrow>
             (if aa1 \<noteq> aa2 then
                (case lookup kd aa1 of
                   Inl e \<Rightarrow> Inl e
                 | Inr k1 \<Rightarrow>
                    (case lookup kd aa2 of
                       Inl e \<Rightarrow> Inl e
                     | Inr k2 \<Rightarrow> Inr (nonsyn_mut + 1, metric + \<bar>k1 - k2\<bar>)))
              else Inr (nonsyn_mut, metric))))"

definition mutability ::
  "('r \<times> real) list \<Rightarrow> 'r table \<Rightarrow> (codon \<times> codon) list \<Rightarrow> error + real" where
  "mutability kd table mut_pairs =
     (case fold_err (mutability_step kd table) mut_pairs (0, 0) of
        Inl e \<Rightarrow> Inl e
      | Inr (nonsyn_mut, metric) \<Rightarrow>
          Inr (if nonsyn_mut = 0 then 0 else metric / real nonsyn_mut))"

lemma key_lookup:
  assumes "c \<in> fst ` set d"
  shows "\<exists>v. map_of d c = Some v \<and> v \<in> snd ` set d"
proof -
  from assms have "map_of d c \<noteq> None" by (simp add: map_of_eq_None_iff)
  then obtain v where v: "map_of d c = Some v" by blast
  then have "(c, v) \<in> set d" by (rule map_of_SomeD)
  then have "v \<in> snd ` set d" by force
  with v show ?thesis by blast
qed

lemma mutability_step_scored:
  assumes "map_of table c1 = Some a1" "map_of table c2 = Some a2"
    and "a1 \<in> fst ` set kd" "a2 \<in> fst ` set kd"
  shows "\<exists>n' m'. mutability_step kd table (c1, c2) (n, m) = Inr (n', m') \<and> m \<le> m' \<and>
           (a1 = a2 \<longrightarrow> n' = n \<and> m' = m)"
proof -
  from key_lookup[OF assms(3)] obtain k1 where k1: "map_of kd a1 = Some k1" by blast
  from key_lookup[OF assms(4)] obtain k2 where k2: "map_of kd a2 = Some k2" by blast
  show ?thesis using assms(1,2) k1 k2 by (simp add: lookup_def)
qed

lemma mutability_fold_scored:
  assumes "\<And>c1 c2. (c1, c2) \<in> set pairs \<Longrightarrow>
             \<exists>a1 a2. map_of table c1 = Some a1 \<and> map_of table c2 = Some a2 \<and>
                     a1 \<in> fst ` set kd \<and> a2 \<in> fst ` set kd"
  shows "\<exists>n' m'. fold_err (mutability_step kd table) pairs (n, m) = Inr (n', m') \<and> m \<le> m' \<and>
           ((\<forall>(c1, c2) \<in> set pairs. map_of table c1 = map_of table c2) \<longrightarrow> n' = n \<and> m' = m)"
  using assms
proof (induction pairs arbitrary: n m)
  case Nil
  then show ?case by simp
next
  case (Cons pr pairs)
  obtain c1 c2 where pr: "pr = (c1, c2)" by (cases pr)
  from Cons.prems[of c1 c2] pr obtain a1 a2 where
    a: "map_of table c1 = Some a1" "map_of table c2 = Some a2" "a1 \<in> fst ` set kd" "a2 \<in> fst ` set kd"
    by auto
  from mutability_step_scored[OF a, of n m] obtain n1 m1 where
    s1: "mutability_step kd table (c1, c2) (n, m) = Inr (n1, m1)" "m \<le> m1"
        "a1 = a2 \<longrightarrow> n1 = n \<and> m1 = m" by blast
  have "\<exists>n' m'. fold_err (mutability_step kd table) pairs (n1, m1) = Inr (n', m') \<and> m1 \<le> m' \<and>
           ((\<forall>(c1, c2) \<in> set pairs. map_of table c1 = map_of table c2) \<longrightarrow> n' = n1 \<and> m' = m1)"
  proof (rule Cons.IH)
    fix d1 d2 assume "(d1, d2) \<in> set pairs"
    then have "(d1, d2) \<in> set (pr # pairs)" by simp
    then show "\<exists>a1 a2. map_of table d1 = Some a1 \<and> map_of table d2 = Some a2 \<and>
                     a1 \<in> fst ` set kd \<and> a2 \<in> fst ` set kd" by (rule Cons.prems)
  qed
  then obtain n' m' where
    s2: "fold_err (mutability_step kd table) pairs (n1, m1) = Inr (n', m')" "m1 \<le> m'"
        "(\<forall>(c1, c2) \<in> set pairs. map_of table c1 = map_of table c2) \<longrightarrow> n' = n1 \<and> m' = m1"
    by blast
  have "fold_err (mutability_step kd table) (pr # pairs) (n, m) = Inr (n', m')"
    using s1(1) s2(1) pr by simp
  moreover have "m \<le> m'" using s1(2) s2(2) by simp
  moreover have "n' = n \<and> m' = m"
    if all: "\<forall>(c1, c2) \<in> set (pr # pairs). map_of table c1 = map_of table c2"
  proof -
    from all pr have "map_of table c1 = map_of table c2" by simp
    with a have "a1 = a2" by simp
    moreover from all have "\<forall>(c1, c2) \<in> set pairs. map_of table c1 = map_of table c2" by simp
    ultimately show ?thesis using s1(3) s2(3) by simp
  qed
  ultimately show ?case by blast
qed

lemma mut_pairs_in_triplets:
  assumes "fst ` set table = set triplet_codons" "(c1, c2) \<in> get_mut_pairs table"
  shows "c1 \<in> fst ` set table \<and> c2 \<in> fst ` set table"
proof -
  from assms(2) obtain i nt where h: "c1 \<in> fst ` set table" "i < length c1" "nt \<in> set rNTPs"
    "c2 = substitute c1 i nt"
    unfolding get_mut_pairs_iff_aux by blast
  then have "length c1 = 3" "set c1 \<subseteq> set rNTPs"
    using assms(1) by (simp_all add: set_triplet_codons)
  then have "length c2 = 3" "set c2 \<subseteq> set rNTPs"
    using h by (simp_all add: length_substitute rNTPs_substitute)
  then show ?thesis using h(1) assms(1) by (simp add: set_triplet_codons)
qed

lemma mutability_total_aux:
  assumes "fst ` set table = set triplet_codons" and "snd ` set table \<subseteq> fst ` set kd"
    and "set mut_pairs = get_mut_pairs table"
  shows "\<exists>m. mutability kd table mut_pairs = Inr m \<and> 0 \<le> m \<and>
           ((\<forall>(c1, c2) \<in> get_mut_pairs table. map_of table c1 = map_of table c2) \<longrightarrow> m = 0) \<and>
           ((\<exists>r. snd ` set table = {r}) \<longrightarrow> m = 0)"
proof -
  have scored: "\<exists>a. map_of table c = Some a \<and> a \<in> fst ` set kd" if "c \<in> fst ` set table" for c
    using key_lookup[OF that] assms(2) by blast
  have pre: "\<exists>a1 a2. map_of table c1 = Some a1 \<and> map_of table c2 = Some a2 \<and>
                     a1 \<in> fst ` set kd \<and> a2 \<in> fst ` set kd" if "(c1, c2) \<in> set mut_pairs" for c1 c2
  proof -
    from that assms(3) have "(c1, c2) \<in> get_mut_pairs table" by simp
    then have k: "c1 \<in> fst ` set table" "c2 \<in> fst ` set table"
      using mut_pairs_in_triplets[OF assms(1)] by blast+
    from scored[OF k(1)] scored[OF k(2)] show ?thesis by blast
  qed
  obtain n' m' where f: "fold_err (mutability_step kd table) mut_pairs (0, 0) = Inr (n', m')"
    and m': "0 \<le> m'"
    and z: "(\<forall>(c1, c2) \<in> set mut_pairs. map_of table c1 = map_of table c2) \<longrightarrow> n' = 0 \<and> m' = 0"
    using mutability_fold_scored[of mut_pairs table kd 0 0, OF pre] by blast
  define m where "m = (if n' = 0 then 0 else m' / real n')"
  have res: "mutability kd table mut_pairs = Inr m" using f by (simp add: mutability_def m_def)
  have nonneg: "0 \<le> m" using m' by (simp add: m_def)
  have syn: "m = 0" if "\<forall>(c1, c2) \<in> get_mut_pairs table. map_of table c1 = map_of table c2"
  proof -
    from that assms(3) have "\<forall>(c1, c2) \<in> set mut_pairs. map_of table c1 = map_of table c2"
      by simp
    with z have "n' = 0" by blast
    then show ?thesis by (simp add: m_def)
  qed
  have const: "m = 0" if "\<exists>r. snd ` set table = {r}"
  proof -
    from that obtain r where r: "snd ` set table = {r}" ..
    have one: "map_of table c = Some r" if "c \<in> fst ` set table" for c
      using key_lookup[OF that] r by auto
    have "map_of table c1 = map_of table c2" if "(c1, c2) \<in> get_mut_pairs table" for c1 c2
    proof -
      from mut_pairs_in_triplets[OF assms(1) that]
      have "c1 \<in> fst ` set table" "c2 \<in> fst ` set table" by simp_all
      then show ?thesis using one by simp
    qed
    then have "\<forall>(c1, c2) \<in> get_mut_pairs table. map_of table c1 = map_of table c2"
      by blast
    then show ?thesis by (rule syn)
  qed
  show ?thesis
  proof (intro exI conjI impI)
    show "mutability kd table mut_pairs = Inr m" by (rule res)
    show "0 \<le> m" by (rule nonneg)
    show "m = 0" if "\<forall>(c1, c2) \<in> get_mut_pairs table. map_of table c1 = map_of table c2"
      using that by (rule syn)
    show "m = 0" if "\<exists>r. snd ` set table = {r}" using that by (rule const)
  qed
qed


definition rna_pair_list :: "(codon \<times> codon) list" where
  "rna_pair_list = concat (map (\<lambda>c. map (Pair c) (get_codon_neighbors c)) triplet_codons)"

lemma set_rna_pair_list: "set rna_pair_list = get_mut_pairs rna_table"
proof -
  have "fst ` set rna_table = set triplet_codons"
    using keys_rna_table by (metis set_map)
  then show ?thesis
    unfolding get_mut_pairs_neighbors rna_pair_list_def by auto
qed

lemma values_rna_table: "snd ` set rna_table = {''K''}"
proof -
  have "triplet_codons \<noteq> []" by (simp add: triplet_codons_def rNTPs_def)
  then have "set triplet_codons \<noteq> {}" by simp
  moreover have "snd ` set rna_table = (\<lambda>c. ''K'') ` set triplet_codons"
    by (simp add: rna_table_def image_image)
  ultimately show ?thesis by (simp add: image_constant_conv)
qed

text \<open>
  C9. For every table that is total on the 64 triplet codons and whose residues all have a
  hydropathy score, and for every order in which the set of mutation pairs is iterated,
  \<^verbatim>\<open>mutability\<close> returns a value (no error), the value is non-negative, and it is 0 when
  no mutation pair is nonsynonymous, in particular when the table maps every codon to
  one residue.
\<close>

theorem mutability_nonneg:
  assumes "fst ` set table = set triplet_codons" and "snd ` set table \<subseteq> fst ` set kd"
    and "set mut_pairs = get_mut_pairs table"
  shows "\<exists>m. mutability kd table mut_pairs = Inr m \<and> 0 \<le> m \<and>
           ((\<forall>(c1, c2) \<in> get_mut_pairs table. map_of table c1 = map_of table c2) \<longrightarrow> m = 0) \<and>
           ((\<exists>r. snd ` set table = {r}) \<longrightarrow> m = 0)"
  using assms by (rule mutability_total_aux)

theorem mutability_nonneg_witness:
  "fst ` set rna_table = set triplet_codons \<and>
   snd ` set rna_table \<subseteq> fst ` set [(''K'', - 39 / 10 :: real)] \<and>
   set rna_pair_list = get_mut_pairs rna_table \<and>
   mutability [(''K'', - 39 / 10)] rna_table rna_pair_list = Inr 0"
proof -
  have k: "fst ` set rna_table = set triplet_codons"
    using keys_rna_table by (metis set_map)
  have v: "snd ` set rna_table \<subseteq> fst ` set [(''K'', - 39 / 10 :: real)]"
    by (simp add: values_rna_table)
  from mutability_nonneg [OF k v set_rna_pair_list] obtain m where
    m: "mutability [(''K'', - 39 / 10)] rna_table rna_pair_list = Inr m"
    and c: "(\<exists>r. snd ` set rna_table = {r}) \<longrightarrow> m = 0" by blast
  from c values_rna_table have "m = 0" by blast
  with m k v set_rna_pair_list show ?thesis by simp
qed

section \<open>Connectivity engine\<close>

text \<open>
  The working state of one search: the list \<^verbatim>\<open>neighbors\<close> of results, the deque
  \<^verbatim>\<open>codon_deque\<close> (its left end is the head of the list, so \<^verbatim>\<open>appendleft\<close> is \<open>#\<close> and
  \<^verbatim>\<open>pop\<close> takes the last element) and the set \<^verbatim>\<open>cache\<close>. The three objects are shared
  by all recursive calls, so every call takes the state and returns it.
\<close>

record bfs_state =
  neighbors :: "(codon \<times> int) list"
  codon_deque :: "(codon \<times> int) list"
  cache :: "string set"

text \<open>The body of the double loop of \<^verbatim>\<open>_connect_recurse\<close> for one \<open>c_new\<close>.\<close>

definition connect_step :: "'r table \<Rightarrow> codon \<Rightarrow> int \<Rightarrow> codon \<Rightarrow> bfs_state \<Rightarrow> error + bfs_state" where
  "connect_step table codon level c_new st =
     (if c_new \<in> cache st then Inr st
      else (case lookup table c_new of
              Inl e \<Rightarrow> Inl e
            | Inr r_new \<Rightarrow>
               (case lookup table codon of
                  Inl e \<Rightarrow> Inl e
                | Inr r \<Rightarrow>
                   (if r_new \<noteq> r
                    then Inr (st\<lparr>neighbors := neighbors st @ [(c_new, level)],
                                cache := insert c_new (cache st)\<rparr>)
                    else Inr (st\<lparr>cache := insert c_new (cache st),
                                codon_deque := (c_new, level) # codon_deque st\<rparr>)))))"

definition connect_scan :: "'r table \<Rightarrow> codon \<Rightarrow> int \<Rightarrow> bfs_state \<Rightarrow> error + bfs_state" where
  "connect_scan table codon level st =
     fold_err (\<lambda>(i, base). fold_err (\<lambda>nt st'. if nt = base then Inr st'
                                               else connect_step table codon level (substitute codon i nt) st')
                                     rNTPs)
              (enumerate 0 codon) st"

text \<open>
  \<^verbatim>\<open>_connect_recurse\<close> scans the neighbours of \<open>codon\<close> and then runs the loop
  \<^verbatim>\<open>while not len(codon_deque) == 0\<close>, here \<open>drain\<close>, whose body pops the oldest entry and
  calls \<^verbatim>\<open>_connect_recurse\<close> on it; the two are mutually recursive, and the loop goes on
  with the state the inner call returns. The recursion terminates because every step
  either caches a key of the table that was not cached or shortens the deque:
  \<open>uncached\<close> counts both.
\<close>

definition uncached :: "'r table \<Rightarrow> bfs_state \<Rightarrow> nat" where
  "uncached table st = card (fst ` set table - cache st) + length (codon_deque st)"

function connect_recurse :: "'r table \<Rightarrow> codon \<Rightarrow> int \<Rightarrow> bfs_state \<Rightarrow> error + bfs_state"
  and drain :: "'r table \<Rightarrow> bfs_state \<Rightarrow> error + bfs_state" where
  "connect_recurse table codon level st =
     (case connect_scan table codon level st of
        Inl e \<Rightarrow> Inl e
      | Inr st' \<Rightarrow> drain table st')"
| "drain table st =
     (if codon_deque st = [] then Inr st
      else (case last (codon_deque st) of (c, newlevel) \<Rightarrow>
              (case connect_recurse table c (newlevel + 1) (st\<lparr>codon_deque := butlast (codon_deque st)\<rparr>) of
                 Inl e \<Rightarrow> Inl e
               | Inr st' \<Rightarrow> drain table st')))"
  by pat_completeness auto

lemma fold_err_skip:
  "fold_err (\<lambda>x s. if P x then Inr s else f x s) xs s = fold_err f (filter (\<lambda>x. \<not> P x) xs) s"
  by (induction xs arbitrary: s) (auto split: sum.splits)

lemma fold_err_map: "fold_err f (map g xs) s = fold_err (\<lambda>x. f (g x)) xs s"
  by (induction xs arbitrary: s) (auto split: sum.splits)

lemma fold_err_concat:
  "fold_err f (concat xss) s = fold_err (\<lambda>xs. fold_err f xs) xss s"
  by (induction xss arbitrary: s) (auto simp: fold_err_append split: sum.splits)

lemma connect_scan_neighbors:
  "connect_scan table codon level st =
     fold_err (connect_step table codon level) (get_codon_neighbors codon) st"
proof -
  have "(\<lambda>(i, base). fold_err (\<lambda>nt st'. if nt = base then Inr st'
                                  else connect_step table codon level (substitute codon i nt) st') rNTPs)
      = (\<lambda>x. fold_err (connect_step table codon level)
                (case x of (i, base) \<Rightarrow> map (substitute codon i) (filter (\<lambda>nt. nt \<noteq> base) rNTPs)))"
    by (auto simp: fun_eq_iff fold_err_map fold_err_skip[where P = "\<lambda>nt. nt = b" for b])
  then show ?thesis
    by (simp add: connect_scan_def get_codon_neighbors_def fold_err_concat fold_err_map)
qed

lemma connect_step_uncached:
  assumes "connect_step table codon level c_new st = Inr st'"
  shows "uncached table st' \<le> uncached table st"
proof (cases "c_new \<in> cache st")
  case True
  with assms show ?thesis by (simp add: connect_step_def)
next
  case False
  from assms False obtain r where r: "map_of table c_new = Some r"
    by (auto simp: connect_step_def lookup_def split: option.splits)
  then have key: "c_new \<in> fst ` set table" by (metis map_of_eq_None_iff option.distinct(1))
  have fin: "finite (fst ` set table - cache st)" by simp
  have eq: "fst ` set table - insert c_new (cache st) = (fst ` set table - cache st) - {c_new}" by auto
  have "c_new \<in> fst ` set table - cache st" using key False by simp
  with fin have "Suc (card ((fst ` set table - cache st) - {c_new})) = card (fst ` set table - cache st)"
    by (rule card_Suc_Diff1)
  then have "card (fst ` set table - insert c_new (cache st)) + 1 = card (fst ` set table - cache st)"
    unfolding eq by simp
  then show ?thesis using assms False
    by (auto simp: connect_step_def uncached_def split: sum.splits if_splits)
qed

lemma connect_scan_uncached:
  assumes "connect_scan table codon level st = Inr st'"
  shows "uncached table st' \<le> uncached table st"
proof -
  have "uncached table st' \<le> uncached table st"
    if "fold_err (connect_step table codon level) cs st = Inr st'" for cs
    using that
  proof (induction cs arbitrary: st)
    case Nil
    then show ?case by simp
  next
    case (Cons c cs)
    then obtain s1 where s1: "connect_step table codon level c st = Inr s1"
      "fold_err (connect_step table codon level) cs s1 = Inr st'"
      by (auto split: sum.splits)
    from connect_step_uncached[OF s1(1)] Cons.IH[OF s1(2)] show ?case by simp
  qed
  then show ?thesis using assms unfolding connect_scan_neighbors by blast
qed

lemma connect_recurse_drain_uncached:
  "connect_recurse_drain_dom (Inl (table, codon, level, st)) \<Longrightarrow>
     connect_recurse table codon level st = Inr st' \<Longrightarrow> uncached table st' \<le> uncached table st"
  "connect_recurse_drain_dom (Inr (table, st)) \<Longrightarrow>
     drain table st = Inr st' \<Longrightarrow> uncached table st' \<le> uncached table st"
proof (induction table codon level st and table st arbitrary: st' and st'
       rule: connect_recurse_drain.pinduct)
  case (1 table codon level st)
  from "1.prems" "1.hyps" obtain s1 where s1: "connect_scan table codon level st = Inr s1"
    "drain table s1 = Inr st'"
    by (auto simp: connect_recurse.psimps split: sum.splits)
  from "1.IH"[OF s1] connect_scan_uncached[OF s1(1)] show ?case by simp
next
  case (2 table st)
  show ?case
  proof (cases "codon_deque st = []")
    case True
    with "2.prems" "2.hyps" show ?thesis by (simp add: drain.psimps)
  next
    case False
    obtain c newlevel where l: "last (codon_deque st) = (c, newlevel)" by (cases "last (codon_deque st)")
    from "2.prems" "2.hyps" False l obtain s1 where
      s1: "connect_recurse table c (newlevel + 1) (st\<lparr>codon_deque := butlast (codon_deque st)\<rparr>) = Inr s1"
      "drain table s1 = Inr st'"
      by (auto simp: drain.psimps split: sum.splits)
    have "uncached table s1 \<le> uncached table (st\<lparr>codon_deque := butlast (codon_deque st)\<rparr>)"
      using "2.IH"(1)[OF False l[symmetric] s1(1)] .
    moreover have "uncached table st' \<le> uncached table s1"
      using "2.IH"(2)[OF False l[symmetric] s1] .
    moreover have "uncached table (st\<lparr>codon_deque := butlast (codon_deque st)\<rparr>) \<le> uncached table st"
      by (simp add: uncached_def)
    ultimately show ?thesis by simp
  qed
qed

termination connect_recurse
proof (relation "measure (\<lambda>x. case x of Inl (table, codon, level, st) \<Rightarrow> 2 * uncached table st + 1
                                       | Inr (table, st) \<Rightarrow> 2 * uncached table st)", goal_cases)
  case 1
  then show ?case by simp
next
  case (2 table codon level st x2)
  then show ?case using connect_scan_uncached[of table codon level st x2] by simp
next
  case (3 table st x y)
  then show ?case by (cases "codon_deque st" rule: rev_cases) (auto simp: uncached_def)
next
  case (4 table st x y x2)
  then have "uncached table x2 \<le> uncached table (st\<lparr>codon_deque := butlast (codon_deque st)\<rparr>)"
    using connect_recurse_drain_uncached(1) by blast
  moreover have "uncached table (st\<lparr>codon_deque := butlast (codon_deque st)\<rparr>) < uncached table st"
    using 4 by (cases "codon_deque st" rule: rev_cases) (auto simp: uncached_def)
  ultimately show ?case by simp
qed

declare connect_recurse.simps [simp del] drain.simps [simp del]

text \<open>\<^verbatim>\<open>set(codon)\<close>: the set that a Python \<^verbatim>\<open>str\<close> converts to holds its characters,
  each a string of length one.\<close>

definition py_set_of_str :: "string \<Rightarrow> string set" where
  "py_set_of_str s = (\<lambda>ch. [ch]) ` set s"

definition init_state :: "codon \<Rightarrow> bfs_state" where
  "init_state codon = \<lparr>neighbors = [], codon_deque = [], cache = py_set_of_str codon\<rparr>"

text \<open>The list that \<^verbatim>\<open>_connect_recurse(codon, 1, table, [], deque(), set(codon))\<close> returns.\<close>

definition connectivity_of :: "'r table \<Rightarrow> codon \<Rightarrow> error + (codon \<times> int) list" where
  "connectivity_of table codon =
     (case connect_recurse table codon 1 (init_state codon) of
        Inl e \<Rightarrow> Inl e
      | Inr st \<Rightarrow> Inr (neighbors st))"

definition get_codon_connectivity :: "'r table \<Rightarrow> error + (codon \<times> (codon \<times> int) list) list" where
  "get_codon_connectivity table =
     fold_err (\<lambda>codon dist_dict.
                 case connectivity_of table codon of
                   Inl e \<Rightarrow> Inl e
                 | Inr found \<Rightarrow> Inr (AList.update codon found dist_dict))
              (map fst table) []"

text \<open>\<^verbatim>\<open>get_resi_connectivity\<close>: the inner loop translates one record, the outer loop
  stores the translation under the residue of the record's codon, or appends it to the
  list already stored there.\<close>

definition translate_neighbors :: "'r table \<Rightarrow> (codon \<times> int) list \<Rightarrow> error + ('r \<times> int) list" where
  "translate_neighbors table codon_neighbors =
     fold_err (\<lambda>(c2, level) aa_neighbors.
                 case lookup table c2 of
                   Inl e \<Rightarrow> Inl e
                 | Inr A2 \<Rightarrow> Inr (aa_neighbors @ [(A2, level)]))
              codon_neighbors []"

fun resi_step ::
  "'r table \<Rightarrow> codon \<times> (codon \<times> int) list \<Rightarrow> ('r \<times> ('r \<times> int) list) list
     \<Rightarrow> error + ('r \<times> ('r \<times> int) list) list" where
  "resi_step table (c1, codon_neighbors) resi_dist_dict =
     (case lookup table c1 of
        Inl e \<Rightarrow> Inl e
      | Inr A1 \<Rightarrow>
         (case translate_neighbors table codon_neighbors of
            Inl e \<Rightarrow> Inl e
          | Inr aa_neighbors \<Rightarrow>
             (case map_of resi_dist_dict A1 of
                None \<Rightarrow> Inr (AList.update A1 aa_neighbors resi_dist_dict)
              | Some listed \<Rightarrow> Inr (AList.update A1 (listed @ aa_neighbors) resi_dist_dict))))"

definition get_resi_connectivity :: "'r table \<Rightarrow> error + ('r \<times> ('r \<times> int) list) list" where
  "get_resi_connectivity table =
     (case get_codon_connectivity table of
        Inl e \<Rightarrow> Inl e
      | Inr codon_dist_dict \<Rightarrow> fold_err (resi_step table) codon_dist_dict [])"

subsection \<open>The search returns on tables closed under point mutation\<close>

definition closed_table :: "'r table \<Rightarrow> bool" where
  "closed_table table = (\<forall>c \<in> fst ` set table. set (get_codon_neighbors c) \<subseteq> fst ` set table)"

lemma closed_triplets:
  assumes "fst ` set table = set triplet_codons"
  shows "closed_table table"
  unfolding closed_table_def
proof (intro ballI subsetI)
  fix c c' assume c: "c \<in> fst ` set table" and c': "c' \<in> set (get_codon_neighbors c)"
  from c assms have "length c = 3" "set c \<subseteq> set rNTPs" by (simp_all add: set_triplet_codons)
  moreover from c' obtain i nt where "i < length c" "nt \<in> set rNTPs" "c' = substitute c i nt"
    unfolding in_get_codon_neighbors by blast
  ultimately have "length c' = 3" "set c' \<subseteq> set rNTPs"
    by (simp_all add: length_substitute rNTPs_substitute)
  then show "c' \<in> fst ` set table" using assms by (simp add: set_triplet_codons)
qed

definition keyed :: "'r table \<Rightarrow> bfs_state \<Rightarrow> bool" where
  "keyed table st \<longleftrightarrow>
     fst ` set (codon_deque st) \<subseteq> fst ` set table \<and> fst ` set (neighbors st) \<subseteq> fst ` set table"

lemma connect_step_keyed:
  assumes "codon \<in> fst ` set table" "c_new \<in> fst ` set table" "keyed table st"
  shows "\<exists>st'. connect_step table codon level c_new st = Inr st' \<and> keyed table st'"
proof -
  from key_lookup[OF assms(1)] obtain r where r: "map_of table codon = Some r" by blast
  from key_lookup[OF assms(2)] obtain r' where r': "map_of table c_new = Some r'" by blast
  show ?thesis using r r' assms(2,3)
    by (auto simp: connect_step_def lookup_def keyed_def)
qed

lemma connect_scan_keyed:
  assumes "closed_table table" "codon \<in> fst ` set table" "keyed table st"
  shows "\<exists>st'. connect_scan table codon level st = Inr st' \<and> keyed table st'"
proof -
  have "\<exists>st'. fold_err (connect_step table codon level) cs st = Inr st' \<and> keyed table st'"
    if "set cs \<subseteq> fst ` set table" "keyed table st" for cs st
    using that
  proof (induction cs arbitrary: st)
    case Nil
    then show ?case by simp
  next
    case (Cons c cs)
    from connect_step_keyed[OF assms(2) _ Cons.prems(2), of c level] Cons.prems(1)
    obtain s1 where s1: "connect_step table codon level c st = Inr s1" "keyed table s1" by auto
    from Cons.IH[OF _ s1(2)] Cons.prems(1) obtain st' where
      "fold_err (connect_step table codon level) cs s1 = Inr st'" "keyed table st'" by auto
    with s1(1) show ?case by simp
  qed
  moreover have "set (get_codon_neighbors codon) \<subseteq> fst ` set table"
    using assms(1,2) unfolding closed_table_def by blast
  ultimately show ?thesis using assms(3) unfolding connect_scan_neighbors by blast
qed

lemma connect_recurse_drain_returns:
  "closed_table table \<Longrightarrow> codon \<in> fst ` set table \<Longrightarrow> keyed table st \<Longrightarrow>
     \<exists>st'. connect_recurse table codon level st = Inr st' \<and> keyed table st' \<and> codon_deque st' = []"
  "closed_table table \<Longrightarrow> keyed table st \<Longrightarrow>
     \<exists>st'. drain table st = Inr st' \<and> keyed table st' \<and> codon_deque st' = []"
proof (induction table codon level st and table st rule: connect_recurse_drain.induct)
  case (1 table codon level st)
  from connect_scan_keyed[OF "1.prems"] obtain s1 where
    s1: "connect_scan table codon level st = Inr s1" "keyed table s1" by blast
  from "1.IH"[OF s1(1) "1.prems"(1) s1(2)] s1(1) show ?case
    by (simp add: connect_recurse.simps)
next
  case (2 table st)
  show ?case
  proof (cases "codon_deque st = []")
    case True
    with "2.prems" show ?thesis by (simp add: drain.simps)
  next
    case False
    obtain c newlevel where l: "last (codon_deque st) = (c, newlevel)"
      by (cases "last (codon_deque st)")
    have "(c, newlevel) \<in> set (codon_deque st)" using False l by (metis last_in_set)
    then have c: "c \<in> fst ` set table" using "2.prems"(2) by (force simp: keyed_def)
    have k: "keyed table (st\<lparr>codon_deque := butlast (codon_deque st)\<rparr>)"
      using "2.prems"(2) by (auto simp: keyed_def dest: in_set_butlastD)
    from "2.IH"(1)[OF False l[symmetric] "2.prems"(1) c k] obtain s1 where
      s1: "connect_recurse table c (newlevel + 1) (st\<lparr>codon_deque := butlast (codon_deque st)\<rparr>) = Inr s1"
      "keyed table s1" by blast
    from "2.IH"(2)[OF False l[symmetric] s1(1) "2.prems"(1) s1(2)] obtain st' where
      "drain table s1 = Inr st'" "keyed table st'" "codon_deque st' = []" by blast
    then show ?thesis using False l s1(1) by (simp add: drain.simps)
  qed
qed

lemma connectivity_of_returns:
  assumes "closed_table table" "codon \<in> fst ` set table"
  shows "\<exists>found. connectivity_of table codon = Inr found \<and> fst ` set found \<subseteq> fst ` set table"
proof -
  have "keyed table (init_state codon)" by (simp add: keyed_def init_state_def)
  from connect_recurse_drain_returns(1)[OF assms this, of 1] show ?thesis
    by (auto simp: connectivity_of_def keyed_def)
qed


lemma update_fresh: "k \<notin> fst ` set d \<Longrightarrow> AList.update k v d = d @ [(k, v)]"
  by (induction d) auto

lemma dist_dict_fold:
  assumes "\<forall>k \<in> set ks. \<exists>v. F k = Inr v" "distinct ks" "set ks \<inter> fst ` set d = {}"
  shows "fold_err (\<lambda>k d. case F k of Inl e \<Rightarrow> Inl e | Inr v \<Rightarrow> Inr (AList.update k v d)) ks d
           = Inr (d @ map (\<lambda>k. (k, projr (F k))) ks)"
  using assms
proof (induction ks arbitrary: d)
  case Nil
  then show ?case by simp
next
  case (Cons k ks)
  from Cons.prems(1) obtain v where v: "F k = Inr v" by auto
  have fresh: "k \<notin> fst ` set d" using Cons.prems(3) by auto
  have "set ks \<inter> fst ` set (d @ [(k, v)]) = {}" using Cons.prems(2,3) by auto
  with Cons.IH[of "d @ [(k, v)]"] Cons.prems(1,2)
  have "fold_err (\<lambda>k d. case F k of Inl e \<Rightarrow> Inl e | Inr v \<Rightarrow> Inr (AList.update k v d)) ks (d @ [(k, v)])
           = Inr ((d @ [(k, v)]) @ map (\<lambda>k. (k, projr (F k))) ks)" by simp
  then show ?case using v fresh by (simp add: update_fresh)
qed

lemma get_codon_connectivity_returns:
  assumes "closed_table table" "distinct (map fst table)"
  shows "get_codon_connectivity table
           = Inr (map (\<lambda>c. (c, projr (connectivity_of table c))) (map fst table))"
proof -
  have "\<exists>v. connectivity_of table c = Inr v" if "c \<in> set (map fst table)" for c
  proof -
    from that have "c \<in> fst ` set table" by simp
    from connectivity_of_returns[OF assms(1) this] show ?thesis by blast
  qed
  then have "\<forall>c \<in> set (map fst table). \<exists>v. connectivity_of table c = Inr v" by blast
  from dist_dict_fold[where F = "connectivity_of table" and d = "[]", OF this assms(2)]
  show ?thesis by (simp add: get_codon_connectivity_def)
qed

lemma translate_neighbors_keys:
  assumes "fst ` set found \<subseteq> fst ` set table"
  shows "translate_neighbors table found = Inr (map (\<lambda>(c2, level). (the (map_of table c2), level)) found)"
proof -
  have "fold_err (\<lambda>(c2, level) aa_neighbors.
                 case lookup table c2 of
                   Inl e \<Rightarrow> Inl e
                 | Inr A2 \<Rightarrow> Inr (aa_neighbors @ [(A2, level)])) found acc
        = Inr (acc @ map (\<lambda>(c2, level). (the (map_of table c2), level)) found)"
    if "fst ` set found \<subseteq> fst ` set table" for acc
    using that
  proof (induction found arbitrary: acc)
    case Nil
    then show ?case by simp
  next
    case (Cons x found)
    obtain c2 level where x: "x = (c2, level)" by (cases x)
    with Cons.prems have "c2 \<in> fst ` set table" by simp
    from key_lookup[OF this] obtain A2 where "map_of table c2 = Some A2" by blast
    then show ?case using Cons x by (simp add: lookup_def)
  qed
  from this[OF assms, of "[]"] show ?thesis by (simp add: translate_neighbors_def)
qed

definition adjacency :: "'r table \<Rightarrow> (codon \<times> (codon \<times> int) list) list \<Rightarrow> 'r \<Rightarrow> ('r \<times> int) list" where
  "adjacency table cd r =
     concat (map (\<lambda>(c1, found). map (\<lambda>(c2, level). (the (map_of table c2), level)) found)
                 (filter (\<lambda>(c1, found). map_of table c1 = Some r) cd))"

lemma resi_fold:
  assumes "\<forall>(c1, found) \<in> set cd. c1 \<in> fst ` set table \<and> fst ` set found \<subseteq> fst ` set table"
  shows "\<exists>rd'. fold_err (resi_step table) cd rd = Inr rd' \<and>
           (\<forall>r. map_of rd' r =
                  (if \<exists>(c1, found) \<in> set cd. map_of table c1 = Some r
                   then Some ((case map_of rd r of None \<Rightarrow> [] | Some listed \<Rightarrow> listed) @ adjacency table cd r)
                   else map_of rd r))"
  using assms
proof (induction cd arbitrary: rd)
  case Nil
  then show ?case by simp
next
  case (Cons x cd)
  obtain c1 found where x: "x = (c1, found)" by (cases x)
  with Cons.prems have c1: "c1 \<in> fst ` set table" and f: "fst ` set found \<subseteq> fst ` set table"
    by auto
  from key_lookup[OF c1] obtain A1 where A1: "map_of table c1 = Some A1" by blast
  define aa where "aa = map (\<lambda>(c2, level). (the (map_of table c2), level)) found"
  define listed where "listed = (case map_of rd A1 of None \<Rightarrow> [] | Some l \<Rightarrow> l)"
  define rd1 where "rd1 = AList.update A1 (listed @ aa) rd"
  have step: "resi_step table x rd = Inr rd1"
    using A1 translate_neighbors_keys[OF f]
    by (simp add: x lookup_def rd1_def listed_def aa_def split: option.splits)
  have m1: "map_of rd1 = (map_of rd)(A1 \<mapsto> listed @ aa)"
    by (simp add: rd1_def update_conv')
  from Cons.IH[of rd1] Cons.prems obtain rd' where
    rd': "fold_err (resi_step table) cd rd1 = Inr rd'"
    and m: "\<And>r. map_of rd' r =
                  (if \<exists>(c1, found) \<in> set cd. map_of table c1 = Some r
                   then Some ((case map_of rd1 r of None \<Rightarrow> [] | Some listed \<Rightarrow> listed) @ adjacency table cd r)
                   else map_of rd1 r)" by auto
  have "map_of rd' r =
          (if \<exists>(c1, found) \<in> set (x # cd). map_of table c1 = Some r
           then Some ((case map_of rd r of None \<Rightarrow> [] | Some listed \<Rightarrow> listed) @ adjacency table (x # cd) r)
           else map_of rd r)" for r
  proof (cases "r = A1")
    case True
    have adj: "adjacency table (x # cd) r = aa @ adjacency table cd r"
      using True A1 by (simp add: adjacency_def x aa_def)
    have none: "adjacency table cd r = []" if "\<not> (\<exists>(c1, found) \<in> set cd. map_of table c1 = Some r)"
    proof -
      from that have "filter (\<lambda>(c1, found). map_of table c1 = Some r) cd = []"
        by (auto simp: filter_empty_conv)
      then show ?thesis by (simp add: adjacency_def)
    qed
    show ?thesis using True A1 m[of r] m1 adj none
      by (auto simp: x listed_def)
  next
    case False
    have adj: "adjacency table (x # cd) r = adjacency table cd r"
      using False A1 by (simp add: adjacency_def x)
    show ?thesis using False A1 m[of r] m1 adj by (auto simp: x)
  qed
  with step rd' show ?case by simp
qed


lemma adjacency_translates:
  assumes "\<forall>(c1, found) \<in> set cd. fst ` set found \<subseteq> fst ` set table"
  shows "list_all2 (\<lambda>(A2, level) (c2, level'). map_of table c2 = Some A2 \<and> level = level')
           (adjacency table cd r)
           (concat (map snd (filter (\<lambda>(c1, found). map_of table c1 = Some r) cd)))"
proof -
  let ?F = "filter (\<lambda>(c1, found). map_of table c1 = Some r) cd"
  let ?tr = "\<lambda>(c2, level). (the (map_of table c2), level :: int)"
  have adj: "adjacency table cd r = map ?tr (concat (map snd ?F))"
    by (simp add: adjacency_def map_concat comp_def case_prod_unfold)
  have "(case ?tr x of (A2, level) \<Rightarrow> \<lambda>(c2, level'). map_of table c2 = Some A2 \<and> level = level') x"
    if "x \<in> set (concat (map snd ?F))" for x
  proof -
    obtain c2 level where x: "x = (c2, level)" by (cases x)
    from that obtain c1 found where "(c1, found) \<in> set cd" "x \<in> set found" by auto
    with assms x have "c2 \<in> fst ` set table" by force
    from key_lookup[OF this] x show ?thesis by auto
  qed
  then show ?thesis unfolding adj list_all2_map1 by (intro list.rel_refl_strong)
qed

lemma length_adjacency:
  "length (adjacency table cd r)
     = (\<Sum>(c1, found) \<leftarrow> filter (\<lambda>(c1, found). map_of table c1 = Some r) cd. length found)"
proof -
  show ?thesis by (simp add: adjacency_def length_concat comp_def case_prod_unfold)
qed

lemma get_resi_connectivity_aux:
  assumes "fst ` set table = set triplet_codons" and "distinct (map fst table)"
  shows "\<exists>cd rd. get_codon_connectivity table = Inr cd \<and> get_resi_connectivity table = Inr rd \<and>
           map fst cd = map fst table \<and>
           (\<forall>r. case map_of rd r of
                  None \<Rightarrow> r \<notin> snd ` set table
                | Some adj \<Rightarrow>
                    r \<in> snd ` set table \<and>
                    list_all2 (\<lambda>(A2, level) (c2, level'). map_of table c2 = Some A2 \<and> level = level')
                      adj (concat (map snd (filter (\<lambda>(c1, found). map_of table c1 = Some r) cd))) \<and>
                    length adj
                      = (\<Sum>(c1, found) \<leftarrow> filter (\<lambda>(c1, found). map_of table c1 = Some r) cd. length found))"
proof -
  have closed: "closed_table table" using assms(1) by (rule closed_triplets)
  define cd where "cd = map (\<lambda>c. (c, projr (connectivity_of table c))) (map fst table)"
  have gcc: "get_codon_connectivity table = Inr cd"
    unfolding cd_def using closed assms(2) by (rule get_codon_connectivity_returns)
  have keys: "map fst cd = map fst table" by (simp add: cd_def comp_def)
  have entries: "c1 \<in> fst ` set table \<and> fst ` set found \<subseteq> fst ` set table"
    if "(c1, found) \<in> set cd" for c1 found
  proof -
    from that have c1: "c1 \<in> fst ` set table" and f: "found = projr (connectivity_of table c1)"
      by (auto simp: cd_def)
    from connectivity_of_returns[OF closed c1] obtain fd where
      "connectivity_of table c1 = Inr fd" "fst ` set fd \<subseteq> fst ` set table" by blast
    with f have "fst ` set found \<subseteq> fst ` set table" by simp
    with c1 show ?thesis by simp
  qed
  then have e1: "\<forall>(c1, found) \<in> set cd. c1 \<in> fst ` set table \<and> fst ` set found \<subseteq> fst ` set table"
    by blast
  then have e2: "\<forall>(c1, found) \<in> set cd. fst ` set found \<subseteq> fst ` set table" by blast
  from resi_fold[OF e1, of "[]"] obtain rd where
    rd: "fold_err (resi_step table) cd [] = Inr rd"
    and m: "\<And>r. map_of rd r =
                  (if \<exists>(c1, found) \<in> set cd. map_of table c1 = Some r
                   then Some (adjacency table cd r) else None)" by auto
  have grc: "get_resi_connectivity table = Inr rd"
    using gcc rd by (simp add: get_resi_connectivity_def)
  have occ: "(\<exists>(c1, found) \<in> set cd. map_of table c1 = Some r) \<longleftrightarrow> r \<in> snd ` set table" for r
  proof
    assume "\<exists>(c1, found) \<in> set cd. map_of table c1 = Some r"
    then obtain c1 where "map_of table c1 = Some r" by auto
    then have "(c1, r) \<in> set table" by (rule map_of_SomeD)
    then show "r \<in> snd ` set table" by force
  next
    assume "r \<in> snd ` set table"
    then obtain c1 where in_t: "(c1, r) \<in> set table" by auto
    then have "map_of table c1 = Some r" using assms(2) by simp
    moreover have "c1 \<in> set (map fst cd)" unfolding keys using in_t by force
    then obtain found where "(c1, found) \<in> set cd" by auto
    ultimately show "\<exists>(c1, found) \<in> set cd. map_of table c1 = Some r" by blast
  qed
  have "case map_of rd r of
          None \<Rightarrow> r \<notin> snd ` set table
        | Some adj \<Rightarrow>
            r \<in> snd ` set table \<and>
            list_all2 (\<lambda>(A2, level) (c2, level'). map_of table c2 = Some A2 \<and> level = level')
              adj (concat (map snd (filter (\<lambda>(c1, found). map_of table c1 = Some r) cd))) \<and>
            length adj
              = (\<Sum>(c1, found) \<leftarrow> filter (\<lambda>(c1, found). map_of table c1 = Some r) cd. length found)" for r
  proof (cases "r \<in> snd ` set table")
    case True
    then have "map_of rd r = Some (adjacency table cd r)" using m[of r] occ[of r] by simp
    then show ?thesis using True adjacency_translates[OF e2, of r] length_adjacency[of table cd r]
      by simp
  next
    case False
    then have "map_of rd r = None" using m[of r] occ[of r] by simp
    then show ?thesis using False by simp
  qed
  with gcc grc keys show ?thesis by blast
qed

lemma distinct_triplet_codons: "distinct triplet_codons"
  by (simp add: triplet_codons_def rNTPs_def)


text \<open>
  C7. For every table that is total on the 64 triplet codons, \<^verbatim>\<open>get_resi_connectivity\<close>
  returns a dict whose keys are the residues of the table, and the adjacency list of a
  residue \<open>r\<close> is the concatenation, in table order and with nothing removed, of the
  records of the codons that encode \<open>r\<close>, each boundary codon replaced by its residue;
  so its length is the sum of the lengths of those records.
\<close>

theorem get_resi_connectivity_concat:
  assumes "fst ` set table = set triplet_codons" and "distinct (map fst table)"
  shows "\<exists>cd rd. get_codon_connectivity table = Inr cd \<and> get_resi_connectivity table = Inr rd \<and>
           map fst cd = map fst table \<and>
           (\<forall>r. case map_of rd r of
                  None \<Rightarrow> r \<notin> snd ` set table
                | Some adj \<Rightarrow>
                    r \<in> snd ` set table \<and>
                    list_all2 (\<lambda>(A2, level) (c2, level'). map_of table c2 = Some A2 \<and> level = level')
                      adj (concat (map snd (filter (\<lambda>(c1, found). map_of table c1 = Some r) cd))) \<and>
                    length adj
                      = (\<Sum>(c1, found) \<leftarrow> filter (\<lambda>(c1, found). map_of table c1 = Some r) cd. length found))"
  using assms by (rule get_resi_connectivity_aux)

subsection \<open>Shortest plateau paths\<close>

text \<open>
  \<open>walk_ends table src n\<close> lists the codons at which a path of \<open>n\<close> point mutations from
  \<open>src\<close> can end, when every codon of the path before its end encodes the residue of
  \<open>src\<close>.
\<close>

fun walk_ends :: "'r table \<Rightarrow> codon \<Rightarrow> nat \<Rightarrow> codon list" where
  "walk_ends table src 0 = [src]"
| "walk_ends table src (Suc n) =
     concat (map get_codon_neighbors
                 (filter (\<lambda>c. map_of table c = map_of table src) (walk_ends table src n)))"

definition first_at :: "'r table \<Rightarrow> codon \<Rightarrow> codon \<Rightarrow> nat \<Rightarrow> bool" where
  "first_at table src c n \<longleftrightarrow>
     c \<in> set (walk_ends table src n) \<and> (\<forall>m < n. c \<notin> set (walk_ends table src m))"

definition expanded :: "codon \<Rightarrow> string set \<Rightarrow> bool" where
  "expanded c C \<longleftrightarrow> set (get_codon_neighbors c) \<subseteq> C"

definition minimal_record :: "'r table \<Rightarrow> codon \<Rightarrow> (codon \<times> int) list \<Rightarrow> bool" where
  "minimal_record table src found \<longleftrightarrow>
     (\<forall>(b, d) \<in> set found.
        1 \<le> d \<and> map_of table b \<noteq> map_of table src \<and> first_at table src b (nat d)) \<and>
     sorted (map snd found)"

text \<open>
  The invariant of the search from \<open>src\<close>. \<open>W\<close> is the pending work, oldest first: the
  codon being scanned and the deque. \<open>k\<close> is the distance of the codon being scanned.
\<close>

definition bfs_inv ::
  "'r table \<Rightarrow> codon \<Rightarrow> int \<Rightarrow> (codon \<times> int) list \<Rightarrow> string set \<Rightarrow> (codon \<times> int) list \<Rightarrow> bool" where
  "bfs_inv table src k W C N \<longleftrightarrow>
     0 \<le> k \<and> sorted (map snd W) \<and> (\<forall>(x, l) \<in> set W. k \<le> l \<and> l \<le> k + 1) \<and>
     (\<forall>(x, l) \<in> set W. map_of table x = map_of table src \<and>
                         (first_at table src x (nat l) \<or> expanded x C)) \<and>
     minimal_record table src N \<and> (\<forall>(b, l) \<in> set N. l \<le> k + 1) \<and>
     (\<forall>p m. p \<in> set (walk_ends table src m) \<and> map_of table p = map_of table src \<and> int m < k
             \<longrightarrow> expanded p C) \<and>
     (\<forall>x \<in> C. map_of table x = map_of table src \<longrightarrow> x \<in> fst ` set W \<or> expanded x C) \<and>
     (src \<in> fst ` set W \<or> expanded src C)"

lemma walk_ends_Suc:
  "c' \<in> set (walk_ends table src (Suc n)) \<longleftrightarrow>
     (\<exists>c. c \<in> set (walk_ends table src n) \<and> map_of table c = map_of table src \<and>
          c' \<in> set (get_codon_neighbors c))"
  by (auto simp: walk_ends.simps(2))

declare walk_ends.simps(2) [simp del]

lemma not_self_neighbor: "c \<notin> set (get_codon_neighbors c)"
proof
  assume "c \<in> set (get_codon_neighbors c)"
  then obtain i nt where h: "i < length c" "nt \<noteq> c ! i" "c = substitute c i nt"
    unfolding in_get_codon_neighbors by blast
  then have "c ! i = substitute c i nt ! i" by simp
  with h(1,2) show False by (simp add: nth_substitute)
qed

lemma expanded_mono: "expanded c C \<Longrightarrow> C \<subseteq> C' \<Longrightarrow> expanded c C'"
  by (auto simp: expanded_def)

lemma bfs_inv_raise:
  assumes inv: "bfs_inv table src k W C N" and top: "\<forall>(x, l) \<in> set W. l = k + 1"
  shows "bfs_inv table src (k + 1) W C N"
proof -
  from inv have k: "0 \<le> k" and srt: "sorted (map snd W)"
    and b: "\<forall>(x, l) \<in> set W. map_of table x = map_of table src \<and>
                         (first_at table src x (nat l) \<or> expanded x C)"
    and c: "minimal_record table src N"
    and e: "\<forall>(b, l) \<in> set N. l \<le> k + 1"
    and d: "\<And>p m. p \<in> set (walk_ends table src m) \<Longrightarrow> map_of table p = map_of table src \<Longrightarrow>
                   int m < k \<Longrightarrow> expanded p C"
    and f: "\<forall>x \<in> C. map_of table x = map_of table src \<longrightarrow> x \<in> fst ` set W \<or> expanded x C"
    and g: "src \<in> fst ` set W \<or> expanded src C"
    unfolding bfs_inv_def by blast+
  have pending: "expanded p C"
    if "p \<in> fst ` set W" "p \<in> set (walk_ends table src m)" "int m \<le> k" for p m
  proof -
    from that(1) obtain l where l: "(p, l) \<in> set W" by auto
    with top have lk: "l = k + 1" by auto
    from b l have "first_at table src p (nat l) \<or> expanded p C" by auto
    moreover have "\<not> first_at table src p (nat l)"
    proof -
      have "m < nat l" using that(3) lk k by simp
      with that(2) show ?thesis unfolding first_at_def by blast
    qed
    ultimately show ?thesis by blast
  qed
  have d': "expanded p C"
    if p: "p \<in> set (walk_ends table src m)" "map_of table p = map_of table src" "int m < k + 1"
    for p m
  proof (cases "int m < k")
    case True
    with p d show ?thesis by blast
  next
    case False
    with p(3) have mk: "int m = k" by simp
    show ?thesis
    proof (cases m)
      case 0
      with p(1) have "p = src" by simp
      with g pending[of src 0] k show ?thesis by auto
    next
      case (Suc m')
      with p(1) have "p \<in> set (walk_ends table src (Suc m'))" by simp
      then obtain q where q: "q \<in> set (walk_ends table src m')"
        "map_of table q = map_of table src" "p \<in> set (get_codon_neighbors q)"
        unfolding walk_ends_Suc by blast
      have "int m' < k" using mk Suc by simp
      from d[OF q(1,2) this] q(3) have "p \<in> C" by (auto simp: expanded_def)
      with f p(2) have "p \<in> fst ` set W \<or> expanded p C" by blast
      with pending[OF _ p(1)] mk show ?thesis by auto
    qed
  qed
  have a': "\<forall>(x, l) \<in> set W. k + 1 \<le> l \<and> l \<le> k + 1 + 1" using top by auto
  show ?thesis
    unfolding bfs_inv_def using k srt a' b c e d' f g by (intro conjI) (simp, blast+, force, blast+)
qed


lemma bfs_inv_boundary:
  assumes inv: "bfs_inv table src k W C N"
    and fa: "first_at table src b (nat (k + 1))" and diff: "map_of table b \<noteq> map_of table src"
  shows "bfs_inv table src k W (insert b C) (N @ [(b, k + 1)])"
proof -
  from inv have k: "0 \<le> k" and srt: "sorted (map snd W)"
    and a: "\<forall>(x, l) \<in> set W. k \<le> l \<and> l \<le> k + 1"
    and b: "\<forall>(x, l) \<in> set W. map_of table x = map_of table src \<and>
                         (first_at table src x (nat l) \<or> expanded x C)"
    and c: "minimal_record table src N"
    and e: "\<forall>(b, l) \<in> set N. l \<le> k + 1"
    and d: "\<forall>p m. p \<in> set (walk_ends table src m) \<and> map_of table p = map_of table src \<and> int m < k
             \<longrightarrow> expanded p C"
    and f: "\<forall>x \<in> C. map_of table x = map_of table src \<longrightarrow> x \<in> fst ` set W \<or> expanded x C"
    and g: "src \<in> fst ` set W \<or> expanded src C"
    unfolding bfs_inv_def by blast+
  have mono: "expanded y C \<Longrightarrow> expanded y (insert b C)" for y
    by (rule expanded_mono) auto
  have b': "\<forall>(x, l) \<in> set W. map_of table x = map_of table src \<and>
                         (first_at table src x (nat l) \<or> expanded x (insert b C))"
    using b mono by blast
  have c': "minimal_record table src (N @ [(b, k + 1)])"
    using c e fa diff k by (auto simp: minimal_record_def sorted_append)
  have e': "\<forall>(y, l) \<in> set (N @ [(b, k + 1)]). l \<le> k + 1" using e by auto
  have d': "\<forall>p m. p \<in> set (walk_ends table src m) \<and> map_of table p = map_of table src \<and> int m < k
             \<longrightarrow> expanded p (insert b C)"
    using d mono by blast
  have f': "\<forall>x \<in> insert b C. map_of table x = map_of table src \<longrightarrow>
              x \<in> fst ` set W \<or> expanded x (insert b C)"
    using f mono diff by blast
  have g': "src \<in> fst ` set W \<or> expanded src (insert b C)" using g mono by blast
  show ?thesis unfolding bfs_inv_def using k srt a b' c' e' d' f' g' by blast
qed

lemma bfs_inv_enqueue:
  assumes inv: "bfs_inv table src k W C N"
    and same: "map_of table c = map_of table src"
    and lvl: "first_at table src c (nat (k + 1)) \<or> expanded c C"
  shows "bfs_inv table src k (W @ [(c, k + 1)]) (insert c C) N"
proof -
  from inv have k: "0 \<le> k" and srt: "sorted (map snd W)"
    and a: "\<forall>(x, l) \<in> set W. k \<le> l \<and> l \<le> k + 1"
    and b: "\<forall>(x, l) \<in> set W. map_of table x = map_of table src \<and>
                         (first_at table src x (nat l) \<or> expanded x C)"
    and c: "minimal_record table src N"
    and e: "\<forall>(b, l) \<in> set N. l \<le> k + 1"
    and d: "\<forall>p m. p \<in> set (walk_ends table src m) \<and> map_of table p = map_of table src \<and> int m < k
             \<longrightarrow> expanded p C"
    and f: "\<forall>x \<in> C. map_of table x = map_of table src \<longrightarrow> x \<in> fst ` set W \<or> expanded x C"
    and g: "src \<in> fst ` set W \<or> expanded src C"
    unfolding bfs_inv_def by blast+
  have mono: "expanded y C \<Longrightarrow> expanded y (insert c C)" for y
    by (rule expanded_mono) auto
  have srt': "sorted (map snd (W @ [(c, k + 1)]))"
    using srt a by (auto simp: sorted_append)
  have a': "\<forall>(x, l) \<in> set (W @ [(c, k + 1)]). k \<le> l \<and> l \<le> k + 1" using a by auto
  have b': "\<forall>(x, l) \<in> set (W @ [(c, k + 1)]). map_of table x = map_of table src \<and>
                         (first_at table src x (nat l) \<or> expanded x (insert c C))"
    using b mono same lvl by auto
  have d': "\<forall>p m. p \<in> set (walk_ends table src m) \<and> map_of table p = map_of table src \<and> int m < k
             \<longrightarrow> expanded p (insert c C)"
    using d mono by blast
  have f': "\<forall>x \<in> insert c C. map_of table x = map_of table src \<longrightarrow>
              x \<in> fst ` set (W @ [(c, k + 1)]) \<or> expanded x (insert c C)"
    using f mono by force
  have g': "src \<in> fst ` set (W @ [(c, k + 1)]) \<or> expanded src (insert c C)" using g mono by auto
  show ?thesis unfolding bfs_inv_def using k srt' a' b' c e d' f' g' by blast
qed

lemma bfs_inv_done:
  assumes inv: "bfs_inv table src k ((x, l) # W) C N" and ex: "expanded x C"
  shows "bfs_inv table src k W C N"
proof -
  from inv have k: "0 \<le> k" and srt: "sorted (map snd ((x, l) # W))"
    and a: "\<forall>(y, j) \<in> set ((x, l) # W). k \<le> j \<and> j \<le> k + 1"
    and b: "\<forall>(y, j) \<in> set ((x, l) # W). map_of table y = map_of table src \<and>
                         (first_at table src y (nat j) \<or> expanded y C)"
    and c: "minimal_record table src N"
    and e: "\<forall>(b, l) \<in> set N. l \<le> k + 1"
    and d: "\<forall>p m. p \<in> set (walk_ends table src m) \<and> map_of table p = map_of table src \<and> int m < k
             \<longrightarrow> expanded p C"
    and f: "\<forall>y \<in> C. map_of table y = map_of table src \<longrightarrow> y \<in> fst ` set ((x, l) # W) \<or> expanded y C"
    and g: "src \<in> fst ` set ((x, l) # W) \<or> expanded src C"
    unfolding bfs_inv_def by blast+
  have srt': "sorted (map snd W)" using srt by simp
  have a': "\<forall>(y, j) \<in> set W. k \<le> j \<and> j \<le> k + 1" using a by auto
  have b': "\<forall>(y, j) \<in> set W. map_of table y = map_of table src \<and>
                         (first_at table src y (nat j) \<or> expanded y C)" using b by auto
  have f': "\<forall>y \<in> C. map_of table y = map_of table src \<longrightarrow> y \<in> fst ` set W \<or> expanded y C"
    using f ex by auto
  have g': "src \<in> fst ` set W \<or> expanded src C" using g ex by auto
  show ?thesis unfolding bfs_inv_def using k srt' a' b' c e d f' g' by blast
qed


definition scanning :: "'r table \<Rightarrow> codon \<Rightarrow> codon \<Rightarrow> int \<Rightarrow> bfs_state \<Rightarrow> bool" where
  "scanning table src x k st \<longleftrightarrow>
     bfs_inv table src k ((x, k) # rev (codon_deque st)) (cache st) (neighbors st)"

definition idle :: "'r table \<Rightarrow> codon \<Rightarrow> int \<Rightarrow> bfs_state \<Rightarrow> bool" where
  "idle table src k st \<longleftrightarrow>
     bfs_inv table src k (rev (codon_deque st)) (cache st) (neighbors st)"

lemma connect_step_cached: "c_new \<in> cache st \<Longrightarrow> connect_step table codon level c_new st = Inr st"
  by (simp add: connect_step_def)

lemma connect_step_fresh:
  assumes "c_new \<notin> cache st" "connect_step table codon level c_new st = Inr st'"
  shows "\<exists>r_new r. map_of table c_new = Some r_new \<and> map_of table codon = Some r \<and>
           st' = (if r_new \<noteq> r
                  then st\<lparr>neighbors := neighbors st @ [(c_new, level)],
                          cache := insert c_new (cache st)\<rparr>
                  else st\<lparr>cache := insert c_new (cache st),
                          codon_deque := (c_new, level) # codon_deque st\<rparr>)"
proof -
  from assms obtain r_new where a: "map_of table c_new = Some r_new"
    by (cases "map_of table c_new") (simp_all add: connect_step_def lookup_def)
  from assms a obtain r where b: "map_of table codon = Some r"
    by (cases "map_of table codon") (simp_all add: connect_step_def lookup_def)
  from assms a b show ?thesis
    by (cases "r_new = r") (simp_all add: connect_step_def lookup_def)
qed

lemma bfs_inv_head:
  assumes "bfs_inv table src k ((x, l) # W) C N"
  shows "0 \<le> k" "map_of table x = map_of table src"
    "first_at table src x (nat l) \<or> expanded x C"
proof -
  from assms show "0 \<le> k" unfolding bfs_inv_def by blast
  from assms have "\<forall>(y, j) \<in> set ((x, l) # W). map_of table y = map_of table src \<and>
                         (first_at table src y (nat j) \<or> expanded y C)"
    unfolding bfs_inv_def by blast
  then show "map_of table x = map_of table src" "first_at table src x (nat l) \<or> expanded x C"
    by simp_all
qed

lemma bfs_inv_below:
  assumes "bfs_inv table src k W C N"
    and "p \<in> set (walk_ends table src m)" "map_of table p = map_of table src" "int m < k"
  shows "expanded p C"
proof -
  from assms(1) have "\<forall>p m. p \<in> set (walk_ends table src m) \<and> map_of table p = map_of table src \<and> int m < k
             \<longrightarrow> expanded p C"
    unfolding bfs_inv_def by blast
  with assms(2-4) show ?thesis by blast
qed

lemma scanning_step:
  assumes inv: "scanning table src x k st"
    and nb: "c_new \<in> set (get_codon_neighbors x)"
    and step: "connect_step table x (k + 1) c_new st = Inr st'"
  shows "scanning table src x k st' \<and> c_new \<in> cache st' \<and> cache st \<subseteq> cache st'"
proof (cases "c_new \<in> cache st")
  case True
  with step have "st' = st" by (simp add: connect_step_cached)
  with inv True show ?thesis by simp
next
  case False
  let ?W = "(x, k) # rev (codon_deque st)"
  from inv have I: "bfs_inv table src k ?W (cache st) (neighbors st)" by (simp add: scanning_def)
  note k = bfs_inv_head(1)[OF I] and hd = bfs_inv_head(2,3)[OF I] and d = bfs_inv_below[OF I]
  have "\<not> expanded x (cache st)" using nb False by (auto simp: expanded_def)
  with hd(2) have fx: "first_at table src x (nat k)" by blast
  then have "x \<in> set (walk_ends table src (nat k))" by (simp add: first_at_def)
  with hd(1) nb have "c_new \<in> set (walk_ends table src (Suc (nat k)))"
    unfolding walk_ends_Suc by blast
  moreover have suc: "Suc (nat k) = nat (k + 1)" using k by simp
  ultimately have reach: "c_new \<in> set (walk_ends table src (nat (k + 1)))" by simp
  have early: "c_new = src \<and> expanded src (cache st)"
    if m: "m < nat (k + 1)" "c_new \<in> set (walk_ends table src m)" for m
  proof (cases m)
    case 0
    with m(2) have cs: "c_new = src" by simp
    have "k \<noteq> 0"
    proof
      assume "k = 0"
      with fx have "x = src" by (simp add: first_at_def)
      with nb cs not_self_neighbor[of src] show False by simp
    qed
    with k have "int 0 < k" by simp
    moreover have "src \<in> set (walk_ends table src 0)" by simp
    ultimately have "expanded src (cache st)" using d[of src 0] by blast
    with cs show ?thesis by simp
  next
    case (Suc m')
    with m(2) have "c_new \<in> set (walk_ends table src (Suc m'))" by simp
    then obtain q where q: "q \<in> set (walk_ends table src m')"
      "map_of table q = map_of table src" "c_new \<in> set (get_codon_neighbors q)"
      unfolding walk_ends_Suc by blast
    have "int m' < k" using m(1) Suc k by simp
    from d[OF q(1,2) this] q(3) have "c_new \<in> cache st" unfolding expanded_def by blast
    with False show ?thesis by simp
  qed
  have lvl: "first_at table src c_new (nat (k + 1)) \<or> (c_new = src \<and> expanded src (cache st))"
  proof (cases "\<exists>m < nat (k + 1). c_new \<in> set (walk_ends table src m)")
    case True
    with early show ?thesis by blast
  next
    case False
    with reach show ?thesis unfolding first_at_def by blast
  qed
  from connect_step_fresh[OF False step] obtain r_new r where
    r: "map_of table c_new = Some r_new" "map_of table x = Some r"
    and res: "st' = (if r_new \<noteq> r
                  then st\<lparr>neighbors := neighbors st @ [(c_new, k + 1)],
                          cache := insert c_new (cache st)\<rparr>
                  else st\<lparr>cache := insert c_new (cache st),
                          codon_deque := (c_new, k + 1) # codon_deque st\<rparr>)" by blast
  show ?thesis
  proof (cases "r_new = r")
    case True
    then have same: "map_of table c_new = map_of table src" using r hd(1) by simp
    have st': "st' = st\<lparr>cache := insert c_new (cache st),
                          codon_deque := (c_new, k + 1) # codon_deque st\<rparr>" using res True by simp
    have "first_at table src c_new (nat (k + 1)) \<or> expanded c_new (cache st)" using lvl by blast
    from bfs_inv_enqueue[OF I same this]
    have "bfs_inv table src k (?W @ [(c_new, k + 1)]) (insert c_new (cache st)) (neighbors st)" .
    then have "scanning table src x k st'" by (simp add: scanning_def st')
    moreover have "c_new \<in> cache st'" "cache st \<subseteq> cache st'" by (auto simp: st')
    ultimately show ?thesis by blast
  next
    case False
    then have diff: "map_of table c_new \<noteq> map_of table src" using r hd(1) by simp
    then have "c_new \<noteq> src" by blast
    with lvl have fa: "first_at table src c_new (nat (k + 1))" by blast
    have st': "st' = st\<lparr>neighbors := neighbors st @ [(c_new, k + 1)],
                          cache := insert c_new (cache st)\<rparr>" using res False by simp
    from bfs_inv_boundary[OF I fa diff]
    have "scanning table src x k st'" by (simp add: scanning_def st')
    moreover have "c_new \<in> cache st'" "cache st \<subseteq> cache st'" by (auto simp: st')
    ultimately show ?thesis by blast
  qed
qed

lemma scanning_scan:
  assumes inv: "scanning table src x k st"
    and scan: "connect_scan table x (k + 1) st = Inr st'"
  shows "idle table src k st'"
proof -
  have "scanning table src x k st' \<and> set cs \<subseteq> cache st' \<and> cache st \<subseteq> cache st'"
    if "set cs \<subseteq> set (get_codon_neighbors x)" "scanning table src x k st"
       "fold_err (connect_step table x (k + 1)) cs st = Inr st'" for cs st
    using that
  proof (induction cs arbitrary: st)
    case Nil
    then show ?case by simp
  next
    case (Cons c cs)
    from Cons.prems(3) obtain s1 where s1: "connect_step table x (k + 1) c st = Inr s1"
      "fold_err (connect_step table x (k + 1)) cs s1 = Inr st'"
      by (auto split: sum.splits)
    have "c \<in> set (get_codon_neighbors x)" using Cons.prems(1) by simp
    from scanning_step[OF Cons.prems(2) this s1(1)]
    have a: "scanning table src x k s1" "c \<in> cache s1" "cache st \<subseteq> cache s1" by simp_all
    have "set cs \<subseteq> set (get_codon_neighbors x)" using Cons.prems(1) by simp
    from Cons.IH[OF this a(1) s1(2)] a(2,3) show ?case by auto
  qed
  from this[OF subset_refl inv scan[unfolded connect_scan_neighbors]]
  have "scanning table src x k st'" "expanded x (cache st')"
    by (simp_all add: expanded_def)
  then show ?thesis unfolding scanning_def idle_def by (rule bfs_inv_done)
qed

lemma bfs_inv_levels:
  assumes "bfs_inv table src k W C N"
  shows "sorted (map snd W)" "\<forall>(x, l) \<in> set W. k \<le> l \<and> l \<le> k + 1"
  using assms unfolding bfs_inv_def by blast+

lemma bfs_inv_record: "bfs_inv table src k W C N \<Longrightarrow> minimal_record table src N"
  unfolding bfs_inv_def by blast

lemma idle_pop:
  assumes inv: "idle table src k st" and ne: "codon_deque st \<noteq> []"
    and l: "last (codon_deque st) = (c, newlevel)"
  shows "scanning table src c newlevel (st\<lparr>codon_deque := butlast (codon_deque st)\<rparr>)"
proof -
  let ?W = "rev (butlast (codon_deque st))"
  have W: "rev (codon_deque st) = (c, newlevel) # ?W"
    using ne l by (cases "codon_deque st" rule: rev_cases) auto
  from inv have I: "bfs_inv table src k ((c, newlevel) # ?W) (cache st) (neighbors st)"
    by (simp add: idle_def W)
  note srt = bfs_inv_levels(1)[OF I] and a = bfs_inv_levels(2)[OF I]
  from a have "newlevel = k \<or> newlevel = k + 1" by auto
  then show ?thesis
  proof
    assume "newlevel = k"
    with I show ?thesis by (simp add: scanning_def)
  next
    assume nl: "newlevel = k + 1"
    have "j = k + 1" if "(x, j) \<in> set ((c, newlevel) # ?W)" for x j
    proof -
      from that a have up: "j \<le> k + 1" by blast
      from that srt have "newlevel \<le> j" by force
      with up nl show ?thesis by simp
    qed
    then have "\<forall>(x, j) \<in> set ((c, newlevel) # ?W). j = k + 1" by blast
    from bfs_inv_raise[OF I this] nl show ?thesis by (simp add: scanning_def)
  qed
qed

lemma connect_recurse_drain_minimal:
  "scanning table src codon (level - 1) st \<Longrightarrow> connect_recurse table codon level st = Inr st' \<Longrightarrow>
     minimal_record table src (neighbors st') \<and> codon_deque st' = []"
  "idle table src k st \<Longrightarrow> drain table st = Inr st' \<Longrightarrow>
     minimal_record table src (neighbors st') \<and> codon_deque st' = []"
proof (induction table codon level st and table st arbitrary: st' and k st'
       rule: connect_recurse_drain.induct)
  case (1 table codon level st)
  from "1.prems"(2) obtain s1 where s1: "connect_scan table codon level st = Inr s1"
    "drain table s1 = Inr st'"
    by (auto simp: connect_recurse.simps split: sum.splits)
  have "connect_scan table codon (level - 1 + 1) st = Inr s1" using s1(1) by simp
  from scanning_scan[OF "1.prems"(1) this] have "idle table src (level - 1) s1" .
  from "1.IH"[OF s1(1) this s1(2)] show ?case .
next
  case (2 table st)
  show ?case
  proof (cases "codon_deque st = []")
    case True
    with "2.prems"(2) have "st' = st" by (simp add: drain.simps)
    with "2.prems"(1) True show ?thesis by (simp add: idle_def bfs_inv_record)
  next
    case False
    obtain c newlevel where l: "last (codon_deque st) = (c, newlevel)"
      by (cases "last (codon_deque st)")
    from "2.prems"(2) False l obtain s1 where
      s1: "connect_recurse table c (newlevel + 1) (st\<lparr>codon_deque := butlast (codon_deque st)\<rparr>) = Inr s1"
      "drain table s1 = Inr st'"
      by (auto simp: drain.simps split: sum.splits)
    from idle_pop[OF "2.prems"(1) False l]
    have sc: "scanning table src c (newlevel + 1 - 1) (st\<lparr>codon_deque := butlast (codon_deque st)\<rparr>)"
      by simp
    from "2.IH"(1)[OF False l[symmetric] sc s1(1)]
    have r: "minimal_record table src (neighbors s1)" "codon_deque s1 = []" by simp_all
    from r(2) s1(2) have "st' = s1" by (simp add: drain.simps)
    with r show ?thesis by simp
  qed
qed

lemma scanning_init:
  assumes "src \<in> fst ` set table" and "\<forall>c \<in> fst ` set table. length c \<noteq> 1"
  shows "scanning table src src 0 (init_state src)"
proof -
  from key_lookup[OF assms(1)] obtain r where r: "map_of table src = Some r" by blast
  have junk: "map_of table x \<noteq> map_of table src" if "x \<in> py_set_of_str src" for x
  proof -
    from that have "length x = 1" by (auto simp: py_set_of_str_def)
    with assms(2) have "x \<notin> fst ` set table" by blast
    then have "map_of table x = None" by (simp add: map_of_eq_None_iff)
    with r show ?thesis by simp
  qed
  have "first_at table src src (nat 0)" by (simp add: first_at_def)
  then show ?thesis
    unfolding scanning_def bfs_inv_def init_state_def
    using junk by (simp add: minimal_record_def)
qed

lemma connectivity_of_minimal:
  assumes "src \<in> fst ` set table" and "\<forall>c \<in> fst ` set table. length c \<noteq> 1"
    and "connectivity_of table src = Inr found"
  shows "minimal_record table src found"
proof -
  from assms(3) obtain st' where st': "connect_recurse table src 1 (init_state src) = Inr st'"
    "found = neighbors st'"
    by (auto simp: connectivity_of_def split: sum.splits)
  have "scanning table src src (1 - 1) (init_state src)"
    using scanning_init[OF assms(1,2)] by simp
  from connect_recurse_drain_minimal(1)[OF this st'(1)] st'(2) show ?thesis by simp
qed

text \<open>An example table on the 64 triplets: \<open>UUU\<close> and \<open>UUC\<close> encode \<open>F\<close>, every other
  codon encodes \<open>X\<close>.\<close>

definition phe_table :: "string table" where
  "phe_table = map (\<lambda>c. (c, if c = ''UUU'' \<or> c = ''UUC'' then ''F'' else ''X'')) triplet_codons"

lemma map_of_keyed_map: "map_of (map (\<lambda>k. (k, f k)) ks) k = (if k \<in> set ks then Some (f k) else None)"
  by (induction ks) auto

lemma map_of_phe_table:
  "map_of phe_table c =
     (if length c = 3 \<and> set c \<subseteq> set rNTPs
      then Some (if c = ''UUU'' \<or> c = ''UUC'' then ''F'' else ''X'') else None)"
  unfolding phe_table_def map_of_keyed_map set_triplet_codons by simp

lemma neighbors_UUU:
  "get_codon_neighbors ''UUU'' =
     [''CUU'', ''AUU'', ''GUU'', ''UCU'', ''UAU'', ''UGU'', ''UUC'', ''UUA'', ''UUG'']"
  by (simp add: get_codon_neighbors_def rNTPs_def substitute_def)

lemma neighbors_UUC:
  "get_codon_neighbors ''UUC'' =
     [''CUC'', ''AUC'', ''GUC'', ''UCC'', ''UAC'', ''UGC'', ''UUU'', ''UUA'', ''UUG'']"
  by (simp add: get_codon_neighbors_def rNTPs_def substitute_def)

lemma connectivity_of_phe_UUU:
  "connectivity_of phe_table ''UUU'' =
     Inr [(''CUU'', 1), (''AUU'', 1), (''GUU'', 1), (''UCU'', 1), (''UAU'', 1), (''UGU'', 1),
          (''UUA'', 1), (''UUG'', 1),
          (''CUC'', 2), (''AUC'', 2), (''GUC'', 2), (''UCC'', 2), (''UAC'', 2), (''UGC'', 2)]"
  by (simp add: connectivity_of_def init_state_def py_set_of_str_def
      connect_recurse.simps drain.simps connect_scan_neighbors neighbors_UUU neighbors_UUC
      connect_step_def lookup_def map_of_phe_table rNTPs_def)


text \<open>\<^verbatim>\<open>get_codon_connectivity(table)[src]\<close>\<close>

definition connectivity_record :: "'r table \<Rightarrow> codon \<Rightarrow> error + (codon \<times> int) list" where
  "connectivity_record table src =
     (case get_codon_connectivity table of
        Inl e \<Rightarrow> Inl e
      | Inr dist_dict \<Rightarrow> lookup dist_dict src)"

lemma connectivity_record_total:
  assumes "fst ` set table = set triplet_codons" and "distinct (map fst table)"
    and "src \<in> fst ` set table"
  shows "connectivity_record table src = connectivity_of table src"
proof -
  have closed: "closed_table table" using assms(1) by (rule closed_triplets)
  from connectivity_of_returns[OF closed assms(3)] obtain found where
    f: "connectivity_of table src = Inr found" by blast
  have "map_of (map (\<lambda>c. (c, projr (connectivity_of table c))) (map fst table)) src
          = Some (projr (connectivity_of table src))"
    unfolding map_of_keyed_map using assms(3) by simp
  then show ?thesis
    using f by (simp add: connectivity_record_def get_codon_connectivity_returns[OF closed assms(2)]
        lookup_def)
qed

lemma keys_phe_table: "map fst phe_table = triplet_codons"
  by (simp add: phe_table_def comp_def)

lemma total_phe_table: "fst ` set phe_table = set triplet_codons"
  using keys_phe_table by (metis set_map)

lemma distinct_phe_table: "distinct (map fst phe_table)"
  by (simp only: keys_phe_table distinct_triplet_codons)

lemma connectivity_record_phe_UUU:
  "connectivity_record phe_table ''UUU'' =
     Inr [(''CUU'', 1), (''AUU'', 1), (''GUU'', 1), (''UCU'', 1), (''UAU'', 1), (''UGU'', 1),
          (''UUA'', 1), (''UUG'', 1),
          (''CUC'', 2), (''AUC'', 2), (''GUC'', 2), (''UCC'', 2), (''UAC'', 2), (''UGC'', 2)]"
proof -
  have "''UUU'' \<in> fst ` set phe_table"
    unfolding total_phe_table by (simp add: set_triplet_codons rNTPs_def)
  from connectivity_record_total[OF total_phe_table distinct_phe_table this]
  show ?thesis by (simp only: connectivity_of_phe_UUU)
qed

lemma connectivity_minimal_aux:
  assumes "fst ` set table = set triplet_codons" and "distinct (map fst table)"
  shows "\<exists>cd. get_codon_connectivity table = Inr cd \<and> map fst cd = map fst table \<and>
           (\<forall>(src, found) \<in> set cd.
              sorted (map snd found) \<and>
              (\<forall>(b, d) \<in> set found.
                 1 \<le> d \<and> map_of table b \<noteq> map_of table src \<and>
                 b \<in> set (walk_ends table src (nat d)) \<and>
                 (\<forall>n < nat d. b \<notin> set (walk_ends table src n))))"
proof -
  have closed: "closed_table table" using assms(1) by (rule closed_triplets)
  have nojunk: "\<forall>c \<in> fst ` set table. length c \<noteq> 1"
    unfolding assms(1) set_triplet_codons by simp
  define cd where "cd = map (\<lambda>c. (c, projr (connectivity_of table c))) (map fst table)"
  have gcc: "get_codon_connectivity table = Inr cd"
    unfolding cd_def using closed assms(2) by (rule get_codon_connectivity_returns)
  have keys: "map fst cd = map fst table" by (simp add: cd_def comp_def)
  have "minimal_record table src found" if "(src, found) \<in> set cd" for src found
  proof -
    from that have src: "src \<in> fst ` set table" and f: "found = projr (connectivity_of table src)"
      by (auto simp: cd_def)
    from connectivity_of_returns[OF closed src] obtain fd where
      fd: "connectivity_of table src = Inr fd" by blast
    with f have "connectivity_of table src = Inr found" by simp
    with src nojunk show ?thesis by (rule connectivity_of_minimal)
  qed
  then have "\<forall>(src, found) \<in> set cd.
              sorted (map snd found) \<and>
              (\<forall>(b, d) \<in> set found.
                 1 \<le> d \<and> map_of table b \<noteq> map_of table src \<and>
                 b \<in> set (walk_ends table src (nat d)) \<and>
                 (\<forall>n < nat d. b \<notin> set (walk_ends table src n)))"
    unfolding minimal_record_def first_at_def by blast
  with gcc keys show ?thesis by blast
qed

lemma walk_ends_phe_1: "''CUU'' \<in> set (walk_ends phe_table ''UUU'' 1)"
proof -
  have "walk_ends phe_table ''UUU'' (Suc 0) = get_codon_neighbors ''UUU''"
    by (simp add: walk_ends.simps(2))
  then show ?thesis by (simp add: neighbors_UUU)
qed


text \<open>
  C1. Read as it is written, the claim says that no shorter plateau path reaches any
  codon of another residue, so that every pair of a record would carry the distance of
  the nearest boundary. The search records every boundary codon of the plateau, each at
  its own distance: in the example table the record of \<open>UUU\<close> holds \<open>(CUC, 2)\<close>, while the
  path of one mutation to \<open>CUU\<close> already reaches another residue.
\<close>

theorem connectivity_not_nearest_counterexample:
  "connectivity_record phe_table ''UUU'' =
     Inr [(''CUU'', 1), (''AUU'', 1), (''GUU'', 1), (''UCU'', 1), (''UAU'', 1), (''UGU'', 1),
          (''UUA'', 1), (''UUG'', 1),
          (''CUC'', 2), (''AUC'', 2), (''GUC'', 2), (''UCC'', 2), (''UAC'', 2), (''UGC'', 2)] \<and>
   (1::nat) < nat 2 \<and>
   ''CUU'' \<in> set (walk_ends phe_table ''UUU'' 1) \<and>
   map_of phe_table ''CUU'' \<noteq> map_of phe_table ''UUU''"
proof (intro conjI)
  show "map_of phe_table ''CUU'' \<noteq> map_of phe_table ''UUU''"
    by (simp add: map_of_phe_table rNTPs_def)
  show "''CUU'' \<in> set (walk_ends phe_table ''UUU'' 1)" by (rule walk_ends_phe_1)
  show "(1::nat) < nat 2" by simp
  show "connectivity_record phe_table ''UUU'' =
     Inr [(''CUU'', 1), (''AUU'', 1), (''GUU'', 1), (''UCU'', 1), (''UAU'', 1), (''UGU'', 1),
          (''UUA'', 1), (''UUG'', 1),
          (''CUC'', 2), (''AUC'', 2), (''GUC'', 2), (''UCC'', 2), (''UAC'', 2), (''UGC'', 2)]"
    by (rule connectivity_record_phe_UUU)
qed

text \<open>
  C1, amended. For every table that is total on the 64 triplet codons and for every
  source codon, every pair \<open>(b, d)\<close> in the record that \<^verbatim>\<open>get_codon_connectivity\<close> returns
  is minimal-distance for its boundary codon: \<open>b\<close> encodes a residue different from the
  source's, a path of \<open>d\<close> point mutations leads from the source to \<open>b\<close> passing only through
  codons that encode the source's residue, and no such path of fewer mutations reaches
  \<open>b\<close>. The codons are processed in non-decreasing level order: the distances of a
  record never decrease along the list, so each boundary codon is recorded at its first
  arrival.
\<close>

theorem connectivity_minimal:
  assumes "fst ` set table = set triplet_codons" and "distinct (map fst table)"
  shows "\<exists>cd. get_codon_connectivity table = Inr cd \<and> map fst cd = map fst table \<and>
           (\<forall>(src, found) \<in> set cd.
              sorted (map snd found) \<and>
              (\<forall>(b, d) \<in> set found.
                 1 \<le> d \<and> map_of table b \<noteq> map_of table src \<and>
                 b \<in> set (walk_ends table src (nat d)) \<and>
                 (\<forall>n < nat d. b \<notin> set (walk_ends table src n))))"
  using assms by (rule connectivity_minimal_aux)

theorem connectivity_minimal_witness:
  "fst ` set phe_table = set triplet_codons \<and> distinct (map fst phe_table) \<and>
   (\<exists>found. connectivity_record phe_table ''UUU'' = Inr found \<and> (''CUC'', 2) \<in> set found) \<and>
   ''CUC'' \<in> set (walk_ends phe_table ''UUU'' 2) \<and>
   ''CUC'' \<notin> set (walk_ends phe_table ''UUU'' 1) \<and>
   ''CUC'' \<notin> set (walk_ends phe_table ''UUU'' 0) \<and>
   map_of phe_table ''CUC'' \<noteq> map_of phe_table ''UUU''"
proof -
  from connectivity_minimal [OF total_phe_table distinct_phe_table] obtain cd where
    cd: "get_codon_connectivity phe_table = Inr cd"
    and m: "\<forall>(src, found) \<in> set cd.
              sorted (map snd found) \<and>
              (\<forall>(b, d) \<in> set found.
                 1 \<le> d \<and> map_of phe_table b \<noteq> map_of phe_table src \<and>
                 b \<in> set (walk_ends phe_table src (nat d)) \<and>
                 (\<forall>n < nat d. b \<notin> set (walk_ends phe_table src n)))" by blast
  define found where "found =
     [(''CUU'', 1::int), (''AUU'', 1), (''GUU'', 1), (''UCU'', 1), (''UAU'', 1), (''UGU'', 1),
          (''UUA'', 1), (''UUG'', 1),
          (''CUC'', 2), (''AUC'', 2), (''GUC'', 2), (''UCC'', 2), (''UAC'', 2), (''UGC'', 2)]"
  have rec: "connectivity_record phe_table ''UUU'' = Inr found"
    unfolding found_def by (rule connectivity_record_phe_UUU)
  then have "map_of cd ''UUU'' = Some found"
    using cd by (simp add: connectivity_record_def lookup_Inr)
  then have "(''UUU'', found) \<in> set cd" by (rule map_of_SomeD)
  moreover have inr: "(''CUC'', 2) \<in> set found" by (simp add: found_def)
  ultimately have "map_of phe_table ''CUC'' \<noteq> map_of phe_table ''UUU'' \<and>
      ''CUC'' \<in> set (walk_ends phe_table ''UUU'' (nat 2)) \<and>
      (\<forall>n < nat 2. ''CUC'' \<notin> set (walk_ends phe_table ''UUU'' n))"
    using m by fastforce
  then have a: "map_of phe_table ''CUC'' \<noteq> map_of phe_table ''UUU''"
    and b: "''CUC'' \<in> set (walk_ends phe_table ''UUU'' 2)"
    and c: "\<forall>n < 2. ''CUC'' \<notin> set (walk_ends phe_table ''UUU'' n)" by simp_all
  from c have c1: "''CUC'' \<notin> set (walk_ends phe_table ''UUU'' 1)"
    and c0: "''CUC'' \<notin> set (walk_ends phe_table ''UUU'' 0)" by simp_all
  from rec inr have "\<exists>found. connectivity_record phe_table ''UUU'' = Inr found \<and> (''CUC'', 2) \<in> set found"
    by blast
  with total_phe_table distinct_phe_table a b c1 c0 show ?thesis by blast
qed

text \<open>
  C2. \<^verbatim>\<open>cache = set(codon)\<close> stores the letters of the source codon, not the codon: for
  the source \<open>UUU\<close> the cache starts as \<open>{U}\<close>. In the example table the scan of \<open>UUU\<close>
  leaves \<open>UUU\<close> uncached and enqueues its synonym \<open>UUC\<close>; the scan of \<open>UUC\<close> then finds
  \<open>UUU\<close> uncached, marks it and enqueues it, and the loop calls \<^verbatim>\<open>_connect_recurse\<close> on
  \<open>UUU\<close> a second time, at level 3.
\<close>

theorem source_expanded_twice:
  "cache (init_state ''UUU'') = {''U''} \<and> ''UUU'' \<notin> cache (init_state ''UUU'') \<and>
   (case connect_scan phe_table ''UUU'' 1 (init_state ''UUU'') of
      Inl e \<Rightarrow> False
    | Inr s1 \<Rightarrow>
        codon_deque s1 = [(''UUC'', 1)] \<and> ''UUU'' \<notin> cache s1 \<and>
        (case connect_scan phe_table ''UUC'' 2 (s1\<lparr>codon_deque := []\<rparr>) of
           Inl e \<Rightarrow> False
         | Inr s2 \<Rightarrow>
             codon_deque s2 = [(''UUU'', 2)] \<and> ''UUU'' \<in> cache s2 \<and>
             drain phe_table s2 =
               (case connect_recurse phe_table ''UUU'' 3 (s2\<lparr>codon_deque := []\<rparr>) of
                  Inl e \<Rightarrow> Inl e
                | Inr s3 \<Rightarrow> drain phe_table s3)))"
proof (intro conjI)
  show "cache (init_state ''UUU'') = {''U''}" by (simp add: init_state_def py_set_of_str_def)
  show "''UUU'' \<notin> cache (init_state ''UUU'')" by (simp add: init_state_def py_set_of_str_def)
  show "case connect_scan phe_table ''UUU'' 1 (init_state ''UUU'') of
      Inl e \<Rightarrow> False
    | Inr s1 \<Rightarrow>
        codon_deque s1 = [(''UUC'', 1)] \<and> ''UUU'' \<notin> cache s1 \<and>
        (case connect_scan phe_table ''UUC'' 2 (s1\<lparr>codon_deque := []\<rparr>) of
           Inl e \<Rightarrow> False
         | Inr s2 \<Rightarrow>
             codon_deque s2 = [(''UUU'', 2)] \<and> ''UUU'' \<in> cache s2 \<and>
             drain phe_table s2 =
               (case connect_recurse phe_table ''UUU'' 3 (s2\<lparr>codon_deque := []\<rparr>) of
                  Inl e \<Rightarrow> Inl e
                | Inr s3 \<Rightarrow> drain phe_table s3))"
    by (simp add: init_state_def py_set_of_str_def connect_scan_neighbors neighbors_UUU
        neighbors_UUC connect_step_def lookup_def map_of_phe_table rNTPs_def
        drain.simps[of phe_table])
qed

lemma connectivity_of_phe_UUC:
  "connectivity_of phe_table ''UUC'' =
     Inr [(''CUC'', 1), (''AUC'', 1), (''GUC'', 1), (''UCC'', 1), (''UAC'', 1), (''UGC'', 1),
          (''UUA'', 1), (''UUG'', 1),
          (''CUU'', 2), (''AUU'', 2), (''GUU'', 2), (''UCU'', 2), (''UAU'', 2), (''UGU'', 2)]"
  by (simp add: connectivity_of_def init_state_def py_set_of_str_def
      connect_recurse.simps drain.simps connect_scan_neighbors neighbors_UUU neighbors_UUC
      connect_step_def lookup_def map_of_phe_table rNTPs_def)

lemma phe_codons: "filter (\<lambda>c. map_of phe_table c = Some ''F'') triplet_codons = [''UUU'', ''UUC'']"
  by (simp add: map_of_phe_table triplet_codons_def rNTPs_def)

lemma list_all2_translate:
  assumes "list_all2 (\<lambda>(A2, level) (c2, level'). map_of table c2 = Some A2 \<and> level = level') adj found"
  shows "adj = map (\<lambda>(c2, level). (the (map_of table c2), level)) found"
  using assms by (induction rule: list_all2_induct) auto

lemma phe_records:
  assumes "get_codon_connectivity phe_table = Inr cd"
  shows "filter (\<lambda>(c1, found). map_of phe_table c1 = Some ''F'') cd =
     [(''UUU'', [(''CUU'', 1), (''AUU'', 1), (''GUU'', 1), (''UCU'', 1), (''UAU'', 1), (''UGU'', 1),
          (''UUA'', 1), (''UUG'', 1),
          (''CUC'', 2), (''AUC'', 2), (''GUC'', 2), (''UCC'', 2), (''UAC'', 2), (''UGC'', 2)]),
      (''UUC'', [(''CUC'', 1), (''AUC'', 1), (''GUC'', 1), (''UCC'', 1), (''UAC'', 1), (''UGC'', 1),
          (''UUA'', 1), (''UUG'', 1),
          (''CUU'', 2), (''AUU'', 2), (''GUU'', 2), (''UCU'', 2), (''UAU'', 2), (''UGU'', 2)])]"
proof -
  have closed: "closed_table phe_table" using total_phe_table by (rule closed_triplets)
  from get_codon_connectivity_returns[OF closed distinct_phe_table] assms
  have cd: "cd = map (\<lambda>c. (c, projr (connectivity_of phe_table c))) triplet_codons"
    by (simp add: keys_phe_table)
  have "filter (\<lambda>(c1, found). map_of phe_table c1 = Some ''F'') cd
      = map (\<lambda>c. (c, projr (connectivity_of phe_table c)))
            (filter (\<lambda>c. map_of phe_table c = Some ''F'') triplet_codons)"
    unfolding cd by (simp add: filter_map comp_def)
  then show ?thesis
    by (simp add: phe_codons connectivity_of_phe_UUU connectivity_of_phe_UUC)
qed

text \<open>
  The aggregation on the example table: the codons \<open>UUU\<close> and \<open>UUC\<close> encode \<open>F\<close>, each
  record has 14 pairs, and the adjacency list of \<open>F\<close> is the translation of the first
  record followed by that of the second, 28 pairs with every repetition kept.
\<close>

theorem get_resi_connectivity_concat_witness:
  "fst ` set phe_table = set triplet_codons \<and> distinct (map fst phe_table) \<and>
   connectivity_record phe_table ''UUU'' =
     Inr [(''CUU'', 1), (''AUU'', 1), (''GUU'', 1), (''UCU'', 1), (''UAU'', 1), (''UGU'', 1),
          (''UUA'', 1), (''UUG'', 1),
          (''CUC'', 2), (''AUC'', 2), (''GUC'', 2), (''UCC'', 2), (''UAC'', 2), (''UGC'', 2)] \<and>
   (\<exists>rd. get_resi_connectivity phe_table = Inr rd \<and>
         map_of rd ''F'' =
           Some [(''X'', 1), (''X'', 1), (''X'', 1), (''X'', 1), (''X'', 1), (''X'', 1), (''X'', 1),
                 (''X'', 1), (''X'', 2), (''X'', 2), (''X'', 2), (''X'', 2), (''X'', 2), (''X'', 2),
                 (''X'', 1), (''X'', 1), (''X'', 1), (''X'', 1), (''X'', 1), (''X'', 1), (''X'', 1),
                 (''X'', 1), (''X'', 2), (''X'', 2), (''X'', 2), (''X'', 2), (''X'', 2), (''X'', 2)])"
proof -
  from get_resi_connectivity_concat [OF total_phe_table distinct_phe_table] obtain cd rd where
    cd: "get_codon_connectivity phe_table = Inr cd"
    and rd: "get_resi_connectivity phe_table = Inr rd"
    and all: "\<forall>r. case map_of rd r of
                  None \<Rightarrow> r \<notin> snd ` set phe_table
                | Some adj \<Rightarrow>
                    r \<in> snd ` set phe_table \<and>
                    list_all2 (\<lambda>(A2, level) (c2, level'). map_of phe_table c2 = Some A2 \<and> level = level')
                      adj (concat (map snd (filter (\<lambda>(c1, found). map_of phe_table c1 = Some r) cd))) \<and>
                    length adj
                      = (\<Sum>(c1, found) \<leftarrow> filter (\<lambda>(c1, found). map_of phe_table c1 = Some r) cd. length found)"
    by blast
  have "map_of phe_table ''UUU'' = Some ''F''" by (simp add: map_of_phe_table rNTPs_def)
  then have "(''UUU'', ''F'') \<in> set phe_table" by (rule map_of_SomeD)
  then have inF: "''F'' \<in> snd ` set phe_table" by force
  from all have F: "case map_of rd ''F'' of
                  None \<Rightarrow> ''F'' \<notin> snd ` set phe_table
                | Some adj \<Rightarrow>
                    ''F'' \<in> snd ` set phe_table \<and>
                    list_all2 (\<lambda>(A2, level) (c2, level'). map_of phe_table c2 = Some A2 \<and> level = level')
                      adj (concat (map snd (filter (\<lambda>(c1, found). map_of phe_table c1 = Some ''F'') cd))) \<and>
                    length adj
                      = (\<Sum>(c1, found) \<leftarrow> filter (\<lambda>(c1, found). map_of phe_table c1 = Some ''F'') cd. length found)"
    by (rule spec)
  from F inF obtain adj where adj: "map_of rd ''F'' = Some adj"
    and rel: "list_all2 (\<lambda>(A2, level) (c2, level'). map_of phe_table c2 = Some A2 \<and> level = level')
                      adj (concat (map snd (filter (\<lambda>(c1, found). map_of phe_table c1 = Some ''F'') cd)))"
    by (cases "map_of rd ''F''") auto
  from list_all2_translate[OF rel]
  have "adj = map (\<lambda>(c2, level). (the (map_of phe_table c2), level))
                  (concat (map snd (filter (\<lambda>(c1, found). map_of phe_table c1 = Some ''F'') cd)))" .
  then have "adj = [(''X'', 1), (''X'', 1), (''X'', 1), (''X'', 1), (''X'', 1), (''X'', 1), (''X'', 1),
                 (''X'', 1), (''X'', 2), (''X'', 2), (''X'', 2), (''X'', 2), (''X'', 2), (''X'', 2),
                 (''X'', 1), (''X'', 1), (''X'', 1), (''X'', 1), (''X'', 1), (''X'', 1), (''X'', 1),
                 (''X'', 1), (''X'', 2), (''X'', 2), (''X'', 2), (''X'', 2), (''X'', 2), (''X'', 2)]"
    unfolding phe_records[OF cd] by (simp add: map_of_phe_table rNTPs_def)
  with adj rd have "\<exists>rd. get_resi_connectivity phe_table = Inr rd \<and>
         map_of rd ''F'' =
           Some [(''X'', 1), (''X'', 1), (''X'', 1), (''X'', 1), (''X'', 1), (''X'', 1), (''X'', 1),
                 (''X'', 1), (''X'', 2), (''X'', 2), (''X'', 2), (''X'', 2), (''X'', 2), (''X'', 2),
                 (''X'', 1), (''X'', 1), (''X'', 1), (''X'', 1), (''X'', 1), (''X'', 1), (''X'', 1),
                 (''X'', 1), (''X'', 2), (''X'', 2), (''X'', 2), (''X'', 2), (''X'', 2), (''X'', 2)]"
    by blast
  with total_phe_table distinct_phe_table connectivity_record_phe_UUU show ?thesis by blast
qed

end
